theory Spec2Isabelle
  imports Complex_Main "HOL-Library.Sublist" "HOL-Library.Multiset"
begin

section \<open>Values exchanged with the order-book engine and the transport\<close>

text \<open>
  The order-book visualizer is a React component. Its handlers run to completion one at a
  time on a single thread, so every handler is embedded as a function from the state before
  to the state after. A handler that can end by an exception returns, with the state, the
  value that escaped (\<open>None\<close> for a normal return).

  JavaScript numbers are embedded as \<open>real\<close>; \<open>null\<close> and \<open>undefined\<close> are \<open>None\<close>.
\<close>

text \<open>A price level as the engine returns it: an object with \<open>price\<close> and \<open>qty\<close>.\<close>

record level =
  price :: real
  qty :: real

text \<open>
  The object returned by \<open>apply_and_get\<close>, with the five fields the engine documents; the
  fields \<open>bids\<close>, \<open>asks\<close>, \<open>spread\<close> and \<open>mid_price\<close> carry the prefix \<open>result_\<close> here.
\<close>

record apply_result =
  msg_type :: string
  result_bids :: "level list"
  result_asks :: "level list"
  result_spread :: "real option"
  result_mid_price :: "real option"

text \<open>
  A thrown value, as far as the handlers inspect it: \<open>ThrownValue m\<close> is a value whose
  \<open>message\<close> property is the string \<open>m\<close> (\<open>None\<close> when it has none, or an empty one);
  \<open>ThrownNullish\<close> is \<open>null\<close> or \<open>undefined\<close>, on which reading \<open>message\<close> raises;
  \<open>TypeError\<close> is the error raised by such a read, and by destructuring a value that is
  not iterable.
\<close>

datatype js_thrown = ThrownNullish | ThrownValue "string option" | TypeError

datatype apply_outcome = Returns "apply_result option" | Throws js_thrown

text \<open>
  The request sent on transport open, before \<open>JSON.stringify\<close>; its \<open>method\<close> is
  \<open>req_method\<close> here and the \<open>symbol\<close> of its parameters \<open>params_symbol\<close>.
\<close>

record subscribe_params =
  channel :: string
  params_symbol :: "string list"
  depth :: nat

record subscribe_request =
  req_method :: string
  params :: subscribe_params

text \<open>
  A message as the queue holds it: the raw payload, and with it the socket that delivered
  it. The component stores the payload alone; the origin is recorded to tell the messages
  of different sessions apart, and nothing the component does depends on it.
\<close>

record message =
  origin :: nat
  payload :: string

text \<open>\<open>String.prototype.includes\<close>: the argument occurs as a contiguous substring.\<close>

definition str_includes :: "string \<Rightarrow> string \<Rightarrow> bool" where
  "str_includes s sub = sublist sub s"

text \<open>\<open>Array.prototype.slice(-n)\<close> for a positive \<open>n\<close>: the last \<open>n\<close> entries, or all of them.\<close>

definition slice_last :: "nat \<Rightarrow> 'a list \<Rightarrow> 'a list" where
  "slice_last n xs = drop (length xs - n) xs"

section \<open>The engine handle\<close>

text \<open>
  Modelled from the spec: the engine (\<open>wasm/kraken_wasm.js\<close>) is not among the sources. A
  handle is constructed with an instrument symbol and a depth, configured with a price and a
  quantity precision, applied to raw messages, and released. The handle records how it was
  built and configured and every call made on it: \<open>received\<close> lists the messages passed to
  \<open>apply_and_get\<close>, in call order, and \<open>free_calls\<close> counts the calls of \<open>free\<close>.
\<close>

record book =
  book_symbol :: string
  book_depth :: nat
  precision :: "(nat \<times> nat) option"
  received :: "message list"
  free_calls :: nat

text \<open>
  What the engine answers is a parameter of the development: \<open>apply_and_get\<close> maps the
  handle as it is before the call (so its whole history), the raw message and the display
  depth to a returned object or a thrown value; \<open>free\<close> says whether releasing the handle
  throws.
\<close>

record engine =
  apply_and_get :: "book \<Rightarrow> string \<Rightarrow> nat \<Rightarrow> apply_outcome"
  free :: "book \<Rightarrow> js_thrown option"

text \<open>
  Modelled from the spec: constructing a handle (\<open>WasmOrderbook.with_depth\<close>) and
  configuring its precision (\<open>set_precision\<close>) succeed and record their arguments.
\<close>

definition with_depth :: "string \<Rightarrow> nat \<Rightarrow> book" where
  "with_depth name d =
     \<lparr>book_symbol = name, book_depth = d, precision = None, received = [], free_calls = 0\<rparr>"

definition set_precision :: "nat \<Rightarrow> nat \<Rightarrow> book \<Rightarrow> book" where
  "set_precision p q b = b\<lparr>precision := Some (p, q)\<rparr>"

section \<open>Constants of the component\<close>

definition SYMBOLS :: "string list" where
  "SYMBOLS = [''BTC/USD'', ''ETH/USD'', ''SOL/USD'', ''XRP/USD'', ''ADA/USD'']"

text \<open>The precision table, by the entries of its object literal.\<close>

definition SYMBOL_PRECISION :: "string \<rightharpoonup> nat \<times> nat" where
  "SYMBOL_PRECISION =
     [''BTC/USD'' \<mapsto> (1, 8), ''ETH/USD'' \<mapsto> (2, 8), ''SOL/USD'' \<mapsto> (2, 8),
      ''XRP/USD'' \<mapsto> (5, 8), ''ADA/USD'' \<mapsto> (6, 8)]"

text \<open>
  The table is a plain object, so a property read on it also finds what the object inherits
  from \<open>Object.prototype\<close>: the twelve members named here, each of them a function or (for
  \<open>__proto__\<close>) an object.
\<close>

definition Object_prototype :: "string list" where
  "Object_prototype =
     [''constructor'', ''__defineGetter__'', ''__defineSetter__'', ''hasOwnProperty'',
      ''__lookupGetter__'', ''__lookupSetter__'', ''isPrototypeOf'', ''propertyIsEnumerable'',
      ''toString'', ''valueOf'', ''__proto__'', ''toLocaleString'']"

text \<open>\<open>SYMBOL_PRECISION[x]\<close>: an own entry, an inherited member, or \<open>undefined\<close>.\<close>

datatype property = OwnEntry "nat \<times> nat" | InheritedMember | NoProperty

definition get_property :: "string \<Rightarrow> property" where
  "get_property x =
     (case SYMBOL_PRECISION x of
        Some pq \<Rightarrow> OwnEntry pq
      | None \<Rightarrow> if x \<in> set Object_prototype then InheritedMember else NoProperty)"

text \<open>
  \<open>const [pricePrecision, qtyPrecision] = SYMBOL_PRECISION[symbol] || [2, 8]\<close>. An own
  entry is a pair; \<open>undefined\<close> gives way to the default pair; an inherited member is truthy
  and not iterable, so destructuring it raises a \<open>TypeError\<close>.
\<close>

definition destructure_precision :: "string \<Rightarrow> js_thrown + nat \<times> nat" where
  "destructure_precision x =
     (case get_property x of
        OwnEntry pq \<Rightarrow> Inr pq
      | NoProperty \<Rightarrow> Inr (2, 8)
      | InheritedMember \<Rightarrow> Inl TypeError)"

section \<open>State of the component and of its host\<close>

text \<open>
  One transport connection, with what the closures of the effect run that created it hold:
  the \<open>symbol\<close> of that run and its \<open>mounted\<close> variable. \<open>sent\<close> lists the requests passed
  to \<open>send\<close> and \<open>close_calls\<close> counts the calls of \<open>close\<close>.
\<close>

record socket =
  sock_symbol :: string
  mounted :: bool
  sent :: "subscribe_request list"
  close_calls :: nat

text \<open>
  The React state (\<open>symbol\<close> to \<open>sdkReady\<close>; \<open>connected\<close> is \<open>connected_flag\<close> here), the
  reference cells, and the host: every socket created so far (a socket is named by its
  position in \<open>sockets\<close>), the number of pending \<open>setTimeout(processNextMessage, 0)\<close>
  callbacks, the socket held by the cleanup function React keeps for the connect effect, and
  whether the component is still mounted. The cell \<open>currentSymbolRef\<close>, which is written
  and never read, the guard of the one-time initialisation, logging and rendering are left
  out.

  Three fields observe the run without influencing it: \<open>released\<close> lists the handles on
  which \<open>free\<close> was called, \<open>discarded\<close> the messages cut off by the overflow truncation, and
  \<open>published\<close> the messages whose result was published, each with the socket that was
  current at that moment.
\<close>

record world =
  symbol :: string
  connected_flag :: bool
  bids :: "(real \<times> real) list"
  asks :: "(real \<times> real) list"
  spread :: "real option"
  midPrice :: "real option"
  updateCount :: nat
  checksumValid :: bool
  sdkReady :: bool
  wsRef :: "nat option"
  bookRef :: "book option"
  messageQueueRef :: "message list"
  processingRef :: bool
  sockets :: "socket list"
  timers :: nat
  cleanup :: "nat option"
  alive :: bool
  released :: "book list"
  discarded :: "message list"
  published :: "(nat option \<times> message) list"

text \<open>The component as mounted: the connect effect has returned early, the SDK not being ready.\<close>

definition init_world :: world where
  "init_world =
     \<lparr>symbol = SYMBOLS ! 0, connected_flag = False, bids = [], asks = [], spread = None,
      midPrice = None, updateCount = 0, checksumValid = True, sdkReady = False,
      wsRef = None, bookRef = None, messageQueueRef = [], processingRef = False,
      sockets = [], timers = 0, cleanup = None, alive = True,
      released = [], discarded = [], published = []\<rparr>"

section \<open>Exceptions\<close>

text \<open>
  \<open>try { r } catch (e) { h }\<close>: the handler runs on the thrown value, in the state the block
  left. \<open>and_then\<close> is statement sequencing: what follows a throwing statement is skipped.
\<close>

definition try_catch ::
  "js_thrown option \<times> world \<Rightarrow> (js_thrown \<Rightarrow> world \<Rightarrow> js_thrown option \<times> world)
     \<Rightarrow> js_thrown option \<times> world" where
  "try_catch r h = (case r of (None, s) \<Rightarrow> (None, s) | (Some e, s) \<Rightarrow> h e s)"

definition and_then ::
  "js_thrown option \<times> world \<Rightarrow> (world \<Rightarrow> js_thrown option \<times> world)
     \<Rightarrow> js_thrown option \<times> world" where
  "and_then r f = (case r of (None, s) \<Rightarrow> f s | (Some e, s) \<Rightarrow> (Some e, s))"

section \<open>The sequential processor\<close>

text \<open>The publication of a recognised result (the body of the \<open>if\<close> in the \<open>try\<close> block).\<close>

definition publish :: "apply_result \<Rightarrow> message \<Rightarrow> world \<Rightarrow> world" where
  "publish result msg s =
     s\<lparr>bids := map (\<lambda>l. (price l, qty l)) (result_bids result),
       asks := map (\<lambda>l. (price l, qty l)) (result_asks result),
       spread := result_spread result,
       midPrice := result_mid_price result,
       updateCount := updateCount s + 1,
       checksumValid := True,
       published := published s @ [(wsRef s, msg)]\<rparr>"

text \<open>The \<open>try\<close> block: the engine call on the handle, then the classification of its result.\<close>

definition try_block :: "engine \<Rightarrow> book \<Rightarrow> message \<Rightarrow> world \<Rightarrow> js_thrown option \<times> world" where
  "try_block eng b msg s =
     (let s1 = s\<lparr>bookRef := Some (b\<lparr>received := received b @ [msg]\<rparr>)\<rparr> in
      case apply_and_get eng b (payload msg) 10 of
        Throws e \<Rightarrow> (Some e, s1)
      | Returns None \<Rightarrow> (None, s1)
      | Returns (Some result) \<Rightarrow>
          if msg_type result = ''update'' \<or> msg_type result = ''snapshot''
          then (None, publish result msg s1)
          else (None, s1))"

text \<open>
  The \<open>catch\<close> block. The warning reads \<open>e.message\<close> first, which raises on \<open>null\<close> and
  \<open>undefined\<close>; otherwise a message that includes \<open>Checksum\<close> clears the validity flag.
\<close>

definition catch_block :: "js_thrown \<Rightarrow> world \<Rightarrow> js_thrown option \<times> world" where
  "catch_block e s =
     (case e of
        ThrownNullish \<Rightarrow> (Some TypeError, s)
      | TypeError \<Rightarrow> (None, s)
      | ThrownValue None \<Rightarrow> (None, s)
      | ThrownValue (Some m) \<Rightarrow>
          if str_includes m ''Checksum'' then (None, s\<lparr>checksumValid := False\<rparr>)
          else (None, s))"

text \<open>The \<open>finally\<close> block: leave the processing state, and schedule a drain if work is left.\<close>

definition finally_block :: "world \<Rightarrow> world" where
  "finally_block s =
     (let s1 = s\<lparr>processingRef := False\<rparr> in
      if length (messageQueueRef s1) > 0 then s1\<lparr>timers := timers s1 + 1\<rparr> else s1)"

definition processNextMessage :: "engine \<Rightarrow> world \<Rightarrow> js_thrown option \<times> world" where
  "processNextMessage eng s =
     (if processingRef s then (None, s)
      else case messageQueueRef s of
        [] \<Rightarrow> (None, s)
      | msg # rest \<Rightarrow>
          (case bookRef s of
             None \<Rightarrow> (None, s)
           | Some b \<Rightarrow>
               let s1 = s\<lparr>processingRef := True, messageQueueRef := rest\<rparr>;
                   (c, s2) = try_catch (try_block eng b msg s1) catch_block
               in (c, finally_block s2)))"

text \<open>The append and the overflow truncation of \<open>queueMessage\<close>, before it triggers the drain.\<close>

definition push_bounded :: "message \<Rightarrow> world \<Rightarrow> world" where
  "push_bounded msg s =
     (let q = messageQueueRef s @ [msg] in
      if length q > 100
      then s\<lparr>messageQueueRef := slice_last 50 q,
             discarded := discarded s @ take (length q - 50) q\<rparr>
      else s\<lparr>messageQueueRef := q\<rparr>)"

definition queueMessage :: "engine \<Rightarrow> message \<Rightarrow> world \<Rightarrow> js_thrown option \<times> world" where
  "queueMessage eng msg s = processNextMessage eng (push_bounded msg s)"

section \<open>The session controller\<close>

definition update_socket :: "nat \<Rightarrow> (socket \<Rightarrow> socket) \<Rightarrow> world \<Rightarrow> world" where
  "update_socket w f s =
     (if w < length (sockets s) then s\<lparr>sockets := (sockets s)[w := f (sockets s ! w)]\<rparr> else s)"

text \<open>\<open>ws.close()\<close> and \<open>ws.send(request)\<close> on socket \<open>w\<close>.\<close>

definition ws_close :: "nat \<Rightarrow> world \<Rightarrow> world" where
  "ws_close w s = update_socket w (\<lambda>k. k\<lparr>close_calls := close_calls k + 1\<rparr>) s"

definition ws_send :: "nat \<Rightarrow> subscribe_request \<Rightarrow> world \<Rightarrow> world" where
  "ws_send w r s = update_socket w (\<lambda>k. k\<lparr>sent := sent k @ [r]\<rparr>) s"

text \<open>\<open>bookRef.current.free()\<close> on the handle \<open>b\<close> that \<open>bookRef\<close> holds.\<close>

definition call_free :: "engine \<Rightarrow> book \<Rightarrow> world \<Rightarrow> js_thrown option \<times> world" where
  "call_free eng b s =
     (let b' = b\<lparr>free_calls := free_calls b + 1\<rparr> in
      (free eng b, s\<lparr>bookRef := Some b', released := released s @ [b']\<rparr>))"

text \<open>
  The cleanup function the connect effect returns, for the run that created socket \<open>w\<close>:
  it clears that run's \<open>mounted\<close> and closes its socket. \<open>run_cleanup\<close> is React calling the
  cleanup function it holds, if any, before the effect runs again or the component unmounts.
\<close>

definition effect_cleanup :: "nat \<Rightarrow> world \<Rightarrow> world" where
  "effect_cleanup w s = ws_close w (update_socket w (\<lambda>k. k\<lparr>mounted := False\<rparr>) s)"

definition run_cleanup :: "world \<Rightarrow> world" where
  "run_cleanup s =
     (case cleanup s of None \<Rightarrow> s | Some w \<Rightarrow> (effect_cleanup w s)\<lparr>cleanup := None\<rparr>)"

text \<open>The connect effect, in the four parts its comments name.\<close>

definition clear_previous_state :: "world \<Rightarrow> world" where
  "clear_previous_state s =
     s\<lparr>bids := [], asks := [], spread := None, midPrice := None, updateCount := 0,
       checksumValid := True, messageQueueRef := [], processingRef := False\<rparr>"

definition cleanup_previous_orderbook :: "engine \<Rightarrow> world \<Rightarrow> js_thrown option \<times> world" where
  "cleanup_previous_orderbook eng s =
     (case bookRef s of
        None \<Rightarrow> (None, s)
      | Some b \<Rightarrow>
          and_then (try_catch (call_free eng b s) (\<lambda>e s'. (None, s')))
            (\<lambda>s'. (None, s'\<lparr>bookRef := None\<rparr>)))"

definition close_previous_websocket :: "world \<Rightarrow> world" where
  "close_previous_websocket s =
     (case wsRef s of None \<Rightarrow> s | Some w \<Rightarrow> (ws_close w s)\<lparr>wsRef := None\<rparr>)"

text \<open>
  The rest of the effect: a new handle for the symbol, its precision, a new socket with its
  handlers, and the cleanup function handed to React. When reading the precision throws,
  the new handle is in place without a precision, and neither a socket nor a cleanup
  function exists.
\<close>

definition open_session :: "world \<Rightarrow> js_thrown option \<times> world" where
  "open_session s =
     (let s1 = s\<lparr>bookRef := Some (with_depth (symbol s) 25)\<rparr> in
      case destructure_precision (symbol s) of
        Inl e \<Rightarrow> (Some e, s1)
      | Inr (pricePrecision, qtyPrecision) \<Rightarrow>
          (let b = set_precision pricePrecision qtyPrecision (with_depth (symbol s) 25);
               w = length (sockets s)
           in (None,
               s1\<lparr>bookRef := Some b,
                  sockets := sockets s @
                    [\<lparr>sock_symbol = symbol s, mounted = True, sent = [], close_calls = 0\<rparr>],
                  wsRef := Some w,
                  cleanup := Some w\<rparr>)))"

text \<open>The first three parts retire the previous session; the fourth opens the new one.\<close>

definition retire_previous_session :: "engine \<Rightarrow> world \<Rightarrow> js_thrown option \<times> world" where
  "retire_previous_session eng s =
     and_then (cleanup_previous_orderbook eng (clear_previous_state s))
       (\<lambda>s'. (None, close_previous_websocket s'))"

definition connect_effect :: "engine \<Rightarrow> world \<Rightarrow> js_thrown option \<times> world" where
  "connect_effect eng s =
     (if \<not> sdkReady s then (None, s)
      else and_then (retire_previous_session eng s) open_session)"

text \<open>A dependency of the connect effect changed: React runs the cleanup, then the effect.\<close>

definition rerun_connect_effect :: "engine \<Rightarrow> world \<Rightarrow> js_thrown option \<times> world" where
  "rerun_connect_effect eng s = connect_effect eng (run_cleanup s)"

definition handleSymbolChange :: "engine \<Rightarrow> string \<Rightarrow> world \<Rightarrow> js_thrown option \<times> world" where
  "handleSymbolChange eng newSymbol s =
     (if newSymbol \<noteq> symbol s then rerun_connect_effect eng (s\<lparr>symbol := newSymbol\<rparr>)
      else (None, s))"

text \<open>The cleanup of the last effect, run on unmount.\<close>

definition unmount_cleanup :: "engine \<Rightarrow> world \<Rightarrow> js_thrown option \<times> world" where
  "unmount_cleanup eng s =
     and_then
       (case bookRef s of
          None \<Rightarrow> (None, s)
        | Some b \<Rightarrow> try_catch (call_free eng b s) (\<lambda>e s'. (None, s')))
       (\<lambda>s'. (None, case wsRef s' of None \<Rightarrow> s' | Some w \<Rightarrow> ws_close w s'))"

text \<open>The handlers installed on socket \<open>w\<close>; \<open>onerror\<close> only logs.\<close>

definition ws_onopen :: "nat \<Rightarrow> world \<Rightarrow> world" where
  "ws_onopen w s =
     (if \<not> mounted (sockets s ! w) then s
      else ws_send w
             \<lparr>req_method = ''subscribe'',
              params = \<lparr>channel = ''book'',
                        params_symbol = [sock_symbol (sockets s ! w)],
                        depth = 25\<rparr>\<rparr>
             (s\<lparr>connected_flag := True\<rparr>))"

definition ws_onmessage :: "engine \<Rightarrow> nat \<Rightarrow> string \<Rightarrow> world \<Rightarrow> js_thrown option \<times> world" where
  "ws_onmessage eng w data s =
     (if \<not> mounted (sockets s ! w) then (None, s)
      else queueMessage eng \<lparr>origin = w, payload = data\<rparr> s)"

definition ws_onclose :: "nat \<Rightarrow> world \<Rightarrow> world" where
  "ws_onclose w s = (if \<not> mounted (sockets s ! w) then s else s\<lparr>connected_flag := False\<rparr>)"

section \<open>Events\<close>

text \<open>
  What the host can deliver: the SDK initialisation resolves, a symbol button is clicked,
  a socket signals open, message, error or close, a pending timer fires, the component is
  unmounted. Socket events can arrive in any order and on any socket created so far, also
  after that socket was closed. The buttons exist for the entries of \<open>SYMBOLS\<close> and while
  the component is mounted. A state change is handled together with the effects it
  triggers: no other event comes between a click and the rerun of the connect effect.
\<close>

datatype event =
  SdkReady | Select string | WsOpen nat | WsMessage nat string | WsError nat | WsClose nat
  | Tick | Unmount

text \<open>
  React commits the effects of a state change. When an effect throws, no error boundary
  being in place, React reports the error and unmounts the component, which runs the
  cleanup functions it still holds.
\<close>

definition commit_effect ::
  "engine \<Rightarrow> js_thrown option \<times> world \<Rightarrow> js_thrown option \<times> world" where
  "commit_effect eng r =
     (case r of
        (None, s) \<Rightarrow> (None, s)
      | (Some e, s) \<Rightarrow> (Some e, snd (unmount_cleanup eng ((run_cleanup s)\<lparr>alive := False\<rparr>))))"

fun handle :: "engine \<Rightarrow> world \<Rightarrow> event \<Rightarrow> js_thrown option \<times> world" where
  "handle eng s SdkReady =
     (if alive s \<and> \<not> sdkReady s
      then commit_effect eng (rerun_connect_effect eng (s\<lparr>sdkReady := True\<rparr>))
      else (None, s))"
| "handle eng s (Select x) =
     (if alive s \<and> x \<in> set SYMBOLS then commit_effect eng (handleSymbolChange eng x s)
      else (None, s))"
| "handle eng s (WsOpen w) =
     (if w < length (sockets s) then (None, ws_onopen w s) else (None, s))"
| "handle eng s (WsMessage w data) =
     (if w < length (sockets s) then ws_onmessage eng w data s else (None, s))"
| "handle eng s (WsError w) = (None, s)"
| "handle eng s (WsClose w) =
     (if w < length (sockets s) then (None, ws_onclose w s) else (None, s))"
| "handle eng s Tick =
     (if timers s = 0 then (None, s) else processNextMessage eng (s\<lparr>timers := timers s - 1\<rparr>))"
| "handle eng s Unmount =
     (if alive s then unmount_cleanup eng ((run_cleanup s)\<lparr>alive := False\<rparr>) else (None, s))"

text \<open>
  An exception that escapes an event handler is reported by the host; the state stays as
  the handler left it.
\<close>

definition step :: "engine \<Rightarrow> world \<Rightarrow> event \<Rightarrow> world" where
  "step eng s ev = snd (handle eng s ev)"

fun run :: "engine \<Rightarrow> world \<Rightarrow> event list \<Rightarrow> world" where
  "run eng s [] = s"
| "run eng s (ev # evs) = run eng (step eng s ev) evs"

text \<open>The messages of the message events of a trace, in arrival order.\<close>

fun enqueued :: "event list \<Rightarrow> message list" where
  "enqueued [] = []"
| "enqueued (WsMessage w d # evs) = \<lparr>origin = w, payload = d\<rparr> # enqueued evs"
| "enqueued (ev # evs) = enqueued evs"

text \<open>The traffic of one session: messages delivered by socket \<open>w\<close>, and timers firing.\<close>

definition session_traffic :: "nat \<Rightarrow> event list \<Rightarrow> bool" where
  "session_traffic w evs \<longleftrightarrow> (\<forall>ev \<in> set evs. ev = Tick \<or> (\<exists>d. ev = WsMessage w d))"

section \<open>The single-instrument component\<close>

text \<open>
  \<open>src/App.jsx\<close> watches the one instrument \<open>SYMBOL\<close> and calls the engine's separate
  operations from the message handler itself. Its engine handle is embedded by the list of
  messages applied to it so far, and the engine's answers are again a parameter: the type
  of a message, or a thrown value, and what the queries return for a handle with that
  history.
\<close>

definition SYMBOL :: string where
  "SYMBOL = ''BTC/USD''"

record engine_v1 =
  apply_message :: "string list \<Rightarrow> string \<Rightarrow> js_thrown + string"
  get_best_bid :: "string list \<Rightarrow> real option"
  get_best_ask :: "string list \<Rightarrow> real option"
  get_mid_price :: "string list \<Rightarrow> real option"
  get_spread :: "string list \<Rightarrow> real option"
  get_top_bids :: "string list \<Rightarrow> nat \<Rightarrow> level list"
  get_top_asks :: "string list \<Rightarrow> nat \<Rightarrow> level list"

text \<open>The state of that component; its fields carry the prefix \<open>v1_\<close>.\<close>

record app_v1 =
  v1_connected :: bool
  v1_bids :: "(real \<times> real) list"
  v1_asks :: "(real \<times> real) list"
  v1_spread :: "real option"
  v1_midPrice :: "real option"
  v1_updateCount :: nat
  orderbookRef :: "string list option"
  v1_mounted :: bool
  v1_sent :: "subscribe_request list"

text \<open>\<open>x > 0\<close> on a number that may be \<open>undefined\<close>.\<close>

definition js_positive :: "real option \<Rightarrow> bool" where
  "js_positive x = (case x of None \<Rightarrow> False | Some v \<Rightarrow> v > 0)"

definition onopen_v1 :: "app_v1 \<Rightarrow> app_v1" where
  "onopen_v1 s =
     (if \<not> v1_mounted s then s
      else s\<lparr>v1_connected := True,
             v1_sent := v1_sent s @
               [\<lparr>req_method = ''subscribe'',
                 params = \<lparr>channel = ''book'', params_symbol = [SYMBOL], depth = 25\<rparr>\<rparr>]\<rparr>)"

text \<open>
  The message handler. Whatever the \<open>try\<close> block throws is ignored by its \<open>catch\<close>; with
  no handle the first call already throws.
\<close>

definition onmessage_v1 :: "engine_v1 \<Rightarrow> string \<Rightarrow> app_v1 \<Rightarrow> app_v1" where
  "onmessage_v1 eng data s =
     (if \<not> v1_mounted s then s
      else case orderbookRef s of
        None \<Rightarrow> s
      | Some h \<Rightarrow>
          let book = h @ [data];
              s1 = s\<lparr>orderbookRef := Some book\<rparr>
          in (case apply_message eng h data of
                Inl e \<Rightarrow> s1
              | Inr msgType \<Rightarrow>
                  (if msgType = ''snapshot'' \<or> msgType = ''update'' then
                     (let bestBid = get_best_bid eng book;
                          bestAsk = get_best_ask eng book;
                          s2 = (if js_positive bestBid \<and> js_positive bestAsk
                                then s1\<lparr>v1_midPrice := get_mid_price eng book,
                                        v1_spread := get_spread eng book\<rparr>
                                else s1)
                      in s2\<lparr>v1_bids :=
                              map (\<lambda>l. (price l, qty l)) (get_top_bids eng book 10),
                            v1_asks :=
                              map (\<lambda>l. (price l, qty l)) (get_top_asks eng book 10),
                            v1_updateCount := v1_updateCount s2 + 1\<rparr>)
                   else s1)))"

section \<open>Scripted engines\<close>

text \<open>
  Engines with fixed answers, to run the handlers on concrete traffic. The snapshot is the
  book of two bids and two asks with best bid 100, best ask 100.5, spread 0.5 and mid price
  100.25; the update moves the best bid to 100.25.
\<close>

definition snapshot_result :: apply_result where
  "snapshot_result =
     \<lparr>msg_type = ''snapshot'',
      result_bids = [\<lparr>price = 100, qty = 2\<rparr>, \<lparr>price = 199 / 2, qty = 1\<rparr>],
      result_asks = [\<lparr>price = 201 / 2, qty = 3 / 2\<rparr>, \<lparr>price = 101, qty = 3\<rparr>],
      result_spread = Some (1 / 2),
      result_mid_price = Some (401 / 4)\<rparr>"

definition update_result :: apply_result where
  "update_result =
     \<lparr>msg_type = ''update'',
      result_bids = [\<lparr>price = 401 / 4, qty = 1\<rparr>, \<lparr>price = 100, qty = 2\<rparr>],
      result_asks = [\<lparr>price = 201 / 2, qty = 3 / 2\<rparr>, \<lparr>price = 101, qty = 3\<rparr>],
      result_spread = Some (1 / 4),
      result_mid_price = Some (803 / 8)\<rparr>"

text \<open>
  The payload \<open>snapshot\<close> is answered by the snapshot, \<open>update\<close> by the update, \<open>corrupt\<close>
  by a checksum error, anything else by no result. Releasing a handle succeeds.
\<close>

definition scripted_engine :: engine where
  "scripted_engine =
     \<lparr>apply_and_get = (\<lambda>b msg n.
        if msg = ''snapshot'' then Returns (Some snapshot_result)
        else if msg = ''update'' then Returns (Some update_result)
        else if msg = ''corrupt'' then Throws (ThrownValue (Some ''Checksum mismatch''))
        else Returns None),
      free = (\<lambda>b. None)\<rparr>"

text \<open>The same engine, except that releasing a handle always throws.\<close>

definition faulty_engine :: engine where
  "faulty_engine = scripted_engine\<lparr>free := (\<lambda>b. Some ThrownNullish)\<rparr>"

text \<open>
  For the single-instrument component: \<open>snapshot\<close> installs the book above, \<open>asks-gone\<close>
  is an update that removes every ask. An empty side has best price 0 and no spread or mid
  price.
\<close>

fun v1_book :: "string list \<Rightarrow> level list \<times> level list" where
  "v1_book [] = ([], [])"
| "v1_book (m # ms) =
     (let (bs, as) = v1_book ms in
      if m = ''snapshot'' then (result_bids snapshot_result, result_asks snapshot_result)
      else if m = ''asks-gone'' then (bs, [])
      else (bs, as))"

definition best_price :: "level list \<Rightarrow> real" where
  "best_price ls = (case ls of [] \<Rightarrow> 0 | l # _ \<Rightarrow> price l)"

definition scripted_engine_v1 :: engine_v1 where
  "scripted_engine_v1 =
     \<lparr>apply_message = (\<lambda>h m.
        if m = ''snapshot'' then Inr ''snapshot''
        else if m = ''asks-gone'' then Inr ''update''
        else Inl (ThrownValue (Some ''not a book message''))),
      get_best_bid = (\<lambda>h. Some (best_price (fst (v1_book (rev h))))),
      get_best_ask = (\<lambda>h. Some (best_price (snd (v1_book (rev h))))),
      get_mid_price = (\<lambda>h. case v1_book (rev h) of
         (b # _, a # _) \<Rightarrow> Some ((price b + price a) / 2) | _ \<Rightarrow> None),
      get_spread = (\<lambda>h. case v1_book (rev h) of
         (b # _, a # _) \<Rightarrow> Some (price a - price b) | _ \<Rightarrow> None),
      get_top_bids = (\<lambda>h n. take n (fst (v1_book (rev h)))),
      get_top_asks = (\<lambda>h n. take n (snd (v1_book (rev h))))\<rparr>"

section \<open>Invariants of the session controller\<close>

text \<open>
  The socket whose closures are still mounted is the one React holds the cleanup for, it is
  the socket \<open>wsRef\<close> names, and it was created for the current symbol; a cleanup is held
  only once the SDK is ready; a ready, mounted component has a live session and a handle;
  and the current symbol is one of the listed instruments.
\<close>

definition session_inv :: "world \<Rightarrow> bool" where
  "session_inv s \<longleftrightarrow>
     (\<forall>w < length (sockets s). mounted (sockets s ! w) \<longrightarrow>
        cleanup s = Some w \<and> sock_symbol (sockets s ! w) = symbol s)
     \<and> (\<forall>w. cleanup s = Some w \<longrightarrow>
          wsRef s = Some w \<and> w < length (sockets s) \<and> mounted (sockets s ! w)
          \<and> sdkReady s \<and> alive s)
     \<and> (alive s \<and> sdkReady s \<longrightarrow> cleanup s \<noteq> None \<and> bookRef s \<noteq> None)
     \<and> symbol s \<in> set SYMBOLS"

text \<open>
  No handle exists before the SDK is ready, and the handle in place is the one the connect
  effect built for the current symbol, but for the calls logged on it since.
\<close>

definition handle_inv :: "world \<Rightarrow> bool" where
  "handle_inv s \<longleftrightarrow>
     (\<forall>b. bookRef s = Some b \<longrightarrow>
        sdkReady s \<and> book_symbol b = symbol s \<and> book_depth b = 25
        \<and> precision b = Some (case SYMBOL_PRECISION (symbol s) of
                                Some pq \<Rightarrow> pq | None \<Rightarrow> (2, 8)))"

text \<open>Between two events no message is pending or in flight.\<close>

definition idle_inv :: "world \<Rightarrow> bool" where
  "idle_inv s \<longleftrightarrow> messageQueueRef s = [] \<and> \<not> processingRef s"

text \<open>
  Every message that is queued, that the current handle has received, or whose result was
  published, was delivered by the socket that is (for a publication: was then) current.
\<close>

definition origin_inv :: "world \<Rightarrow> bool" where
  "origin_inv s \<longleftrightarrow>
     (\<forall>d \<in> set (messageQueueRef s). wsRef s = Some (origin d))
     \<and> (\<forall>b. bookRef s = Some b \<longrightarrow> (\<forall>d \<in> set (received b). wsRef s = Some (origin d)))
     \<and> (\<forall>(cur, d) \<in> set (published s). cur = Some (origin d))"

section \<open>Notions used in the statements\<close>

text \<open>The handle the connect effect builds for symbol \<open>x\<close>.\<close>

definition fresh_book :: "string \<Rightarrow> book" where
  "fresh_book x =
     \<lparr>book_symbol = x, book_depth = 25,
      precision = Some (case SYMBOL_PRECISION x of Some pq \<Rightarrow> pq | None \<Rightarrow> (2, 8)),
      received = [], free_calls = 0\<rparr>"

text \<open>The sockets after \<open>close\<close> was called on the one a reference cell \<open>r\<close> names.\<close>

definition closed_sockets :: "nat option \<Rightarrow> socket list \<Rightarrow> socket list" where
  "closed_sockets r ss =
     (case r of
        None \<Rightarrow> ss
      | Some w \<Rightarrow>
          if w < length ss
          then ss[w := (ss ! w)\<lparr>close_calls := close_calls (ss ! w) + 1\<rparr>]
          else ss)"

text \<open>The number of requests sent on socket \<open>w\<close> so far.\<close>

definition sent_count :: "world \<Rightarrow> nat \<Rightarrow> nat" where
  "sent_count s w = (if w < length (sockets s) then length (sent (sockets s ! w)) else 0)"

text \<open>
  What a stretch of one session's traffic carries from a state \<open>s\<close> to a state \<open>s'\<close>, when
  the messages \<open>input\<close> were enqueued on the way: the handle is the same one with more calls
  logged; the messages handed to it, followed by those still pending, are a subsequence of
  those pending before followed by the input, and together with the discarded ones they
  are exactly those; no message is in flight; and a drain is scheduled if work is left.
\<close>

definition carried :: "world \<Rightarrow> world \<Rightarrow> message list \<Rightarrow> bool" where
  "carried s s' input \<longleftrightarrow>
     (\<exists>b new. bookRef s = Some b
        \<and> bookRef s' = Some (b\<lparr>received := received b @ new\<rparr>)
        \<and> subseq (new @ messageQueueRef s') (messageQueueRef s @ input)
        \<and> mset (new @ messageQueueRef s') + mset (discarded s')
            = mset (messageQueueRef s @ input) + mset (discarded s))
     \<and> \<not> processingRef s'
     \<and> (messageQueueRef s' \<noteq> [] \<longrightarrow> 0 < timers s')
     \<and> sockets s' = sockets s"

section \<open>Concrete states\<close>



text \<open>The traffic of the first session: two messages, a timer, a third message.\<close>

definition session_trace :: "event list" where
  "session_trace =
     [WsMessage 0 ''snapshot'', WsMessage 0 ''corrupt'', Tick, WsMessage 0 ''update'']"

text \<open>The SDK becomes ready, and the first socket opens and delivers a snapshot.\<close>

definition snapshot_trace :: "event list" where
  "snapshot_trace = [SdkReady, WsOpen 0, WsMessage 0 ''snapshot'']"

text \<open>The SDK becomes ready, and another instrument is selected.\<close>

definition select_trace :: "event list" where
  "select_trace = [SdkReady, Select ''ADA/USD'']"

text \<open>
  The SDK becomes ready, the first socket opens and delivers a snapshot, and a second
  instrument is selected.
\<close>

definition switch_trace :: "event list" where
  "switch_trace = [SdkReady, WsOpen 0, WsMessage 0 ''snapshot'', Select ''ETH/USD'']"

text \<open>A ready component showing a symbol that has an entry in the table, and one that has none.\<close>

definition ready_world :: "string \<Rightarrow> world" where
  "ready_world x = init_world\<lparr>sdkReady := True, symbol := x\<rparr>"

text \<open>The first session publishes a snapshot, then the component is unmounted.\<close>

definition unmount_trace :: "event list" where
  "unmount_trace = [SdkReady, WsOpen 0, WsMessage 0 ''snapshot'', Unmount]"

text \<open>
  Two switches in a row, with a late message of the first session between them and
  traffic of the third after them.
\<close>

definition double_switch_trace :: "event list" where
  "double_switch_trace =
     [SdkReady, WsOpen 0, WsMessage 0 ''snapshot'', Select ''ETH/USD'',
      WsMessage 0 ''snapshot'', Select ''SOL/USD'', WsOpen 2, WsMessage 2 ''update'']"

text \<open>The single-instrument component once its handle and socket exist.\<close>

definition init_v1 :: app_v1 where
  "init_v1 =
     \<lparr>v1_connected = False, v1_bids = [], v1_asks = [], v1_spread = None,
      v1_midPrice = None, v1_updateCount = 0, orderbookRef = Some [],
      v1_mounted = True, v1_sent = []\<rparr>"

section \<open>The processor, step by step\<close>

lemma init_world_fields [simp]:
  "symbol init_world = ''BTC/USD''" "connected_flag init_world = False"
  "bids init_world = []" "asks init_world = []"
  "spread init_world = None" "midPrice init_world = None"
  "updateCount init_world = 0" "checksumValid init_world = True"
  "sdkReady init_world = False" "wsRef init_world = None" "bookRef init_world = None"
  "messageQueueRef init_world = []" "processingRef init_world = False"
  "sockets init_world = []" "timers init_world = 0" "cleanup init_world = None"
  "alive init_world = True" "released init_world = []" "discarded init_world = []"
  "published init_world = []"
  by (simp_all add: init_world_def SYMBOLS_def)

lemmas processor_defs =
  processNextMessage_def try_catch_def try_block_def catch_block_def finally_block_def
  publish_def Let_def

lemma processNextMessage_idle:
  "processingRef s \<or> messageQueueRef s = [] \<or> bookRef s = None
     \<Longrightarrow> processNextMessage eng s = (None, s)"
  by (auto simp: processNextMessage_def split: list.splits option.splits)

lemma processNextMessage_frame:
  "symbol (snd (processNextMessage eng s)) = symbol s"
  "connected_flag (snd (processNextMessage eng s)) = connected_flag s"
  "sdkReady (snd (processNextMessage eng s)) = sdkReady s"
  "wsRef (snd (processNextMessage eng s)) = wsRef s"
  "sockets (snd (processNextMessage eng s)) = sockets s"
  "cleanup (snd (processNextMessage eng s)) = cleanup s"
  "alive (snd (processNextMessage eng s)) = alive s"
  "released (snd (processNextMessage eng s)) = released s"
  "discarded (snd (processNextMessage eng s)) = discarded s"
  by (simp_all add: processor_defs
      split: list.split option.split apply_outcome.split js_thrown.split prod.split)

lemma processNextMessage_active:
  assumes "\<not> processingRef s" "messageQueueRef s = m # rest" "bookRef s = Some b"
  shows "bookRef (snd (processNextMessage eng s)) = Some (b\<lparr>received := received b @ [m]\<rparr>)"
    and "messageQueueRef (snd (processNextMessage eng s)) = rest"
    and "processingRef (snd (processNextMessage eng s)) = False"
    and "timers (snd (processNextMessage eng s)) = (if rest = [] then timers s else timers s + 1)"
    and "published (snd (processNextMessage eng s)) = published s
         \<or> published (snd (processNextMessage eng s)) = published s @ [(wsRef s, m)]"
  using assms
  by (simp_all add: processor_defs
      split: list.split option.split apply_outcome.split js_thrown.split prod.split)

lemma processNextMessage_checksum:
  assumes "\<not> processingRef s" "messageQueueRef s = m # rest" "bookRef s = Some b"
    and "apply_and_get eng b (payload m) 10 = Throws (ThrownValue (Some e))" "str_includes e ''Checksum''"
  shows "processNextMessage eng s =
    (None, s\<lparr>checksumValid := False,
             bookRef := Some (b\<lparr>received := received b @ [m]\<rparr>),
             messageQueueRef := rest, processingRef := False,
             timers := (if rest = [] then timers s else timers s + 1)\<rparr>)"
  using assms by (simp add: processor_defs)

lemma processNextMessage_recognised:
  assumes "\<not> processingRef s" "messageQueueRef s = m # rest" "bookRef s = Some b"
    and "apply_and_get eng b (payload m) 10 = Returns (Some r)"
    and "msg_type r = ''update'' \<or> msg_type r = ''snapshot''"
  shows "processNextMessage eng s =
    (None, s\<lparr>bids := map (\<lambda>l. (price l, qty l)) (result_bids r),
             asks := map (\<lambda>l. (price l, qty l)) (result_asks r),
             spread := result_spread r, midPrice := result_mid_price r,
             updateCount := updateCount s + 1, checksumValid := True,
             bookRef := Some (b\<lparr>received := received b @ [m]\<rparr>),
             messageQueueRef := rest, processingRef := False,
             timers := (if rest = [] then timers s else timers s + 1),
             published := published s @ [(wsRef s, m)]\<rparr>)"
  using assms by (auto simp add: processor_defs)

lemma processNextMessage_book_None:
  "bookRef (snd (processNextMessage eng s)) = None \<longleftrightarrow> bookRef s = None"
proof (cases "processingRef s \<or> messageQueueRef s = [] \<or> bookRef s = None")
  case True
  then show ?thesis
    by (simp add: processNextMessage_idle)
next
  case False
  then obtain m rest b where "\<not> processingRef s" "messageQueueRef s = m # rest" "bookRef s = Some b"
    by (cases "messageQueueRef s") auto
  then show ?thesis
    using processNextMessage_active(1) [of s m rest b eng] by simp
qed

lemma processNextMessage_at_most_one:
  assumes "bookRef t = Some b"
  shows "\<exists>new. length new \<le> 1
    \<and> bookRef (snd (processNextMessage eng t)) = Some (b\<lparr>received := received b @ new\<rparr>)"
proof (cases "processingRef t \<or> messageQueueRef t = []")
  case True
  then have "processNextMessage eng t = (None, t)"
    by (intro processNextMessage_idle) auto
  then show ?thesis
    using assms by (intro exI [of _ "[]"]) simp
next
  case False
  then obtain m rest where "\<not> processingRef t" "messageQueueRef t = m # rest"
    by (cases "messageQueueRef t") auto
  then show ?thesis
    using processNextMessage_active(1) [of t m rest b eng] assms
    by (intro exI [of _ "[m]"]) simp
qed

lemma push_bounded_keeps:
  "bookRef (push_bounded msg s) = bookRef s"
  "processingRef (push_bounded msg s) = processingRef s"
  by (simp_all add: push_bounded_def Let_def)

lemma push_bounded_frame:
  "symbol (push_bounded msg s) = symbol s"
  "connected_flag (push_bounded msg s) = connected_flag s"
  "sdkReady (push_bounded msg s) = sdkReady s"
  "wsRef (push_bounded msg s) = wsRef s"
  "sockets (push_bounded msg s) = sockets s"
  "cleanup (push_bounded msg s) = cleanup s"
  "alive (push_bounded msg s) = alive s"
  "released (push_bounded msg s) = released s"
  "published (push_bounded msg s) = published s"
  "timers (push_bounded msg s) = timers s"
  by (simp_all add: push_bounded_def Let_def)

lemma push_bounded_timers [simp]: "timers (push_bounded d s) = timers s"
  by (simp add: push_bounded_frame)

lemma push_bounded_queue:
  "messageQueueRef (push_bounded msg s) =
     (if length (messageQueueRef s) \<ge> 100
      then drop (length (messageQueueRef s) - 49) (messageQueueRef s @ [msg])
      else messageQueueRef s @ [msg])"
  by (simp add: push_bounded_def Let_def slice_last_def)

lemma push_bounded_nonempty: "messageQueueRef (push_bounded msg s) \<noteq> []"
  by (simp add: push_bounded_queue)

lemma push_bounded_cut:
  "\<exists>k. messageQueueRef (push_bounded d s) = drop k (messageQueueRef s @ [d])
     \<and> discarded (push_bounded d s) = discarded s @ take k (messageQueueRef s @ [d])"
proof -
  define q where "q = messageQueueRef s @ [d]"
  have eq: "push_bounded d s =
      (if length q > 100
       then s\<lparr>messageQueueRef := drop (length q - 50) q,
              discarded := discarded s @ take (length q - 50) q\<rparr>
       else s\<lparr>messageQueueRef := q\<rparr>)"
    by (simp only: push_bounded_def Let_def slice_last_def q_def)
  show ?thesis
  proof (cases "length q > 100")
    case True
    with eq have "messageQueueRef (push_bounded d s) = drop (length q - 50) q
        \<and> discarded (push_bounded d s) = discarded s @ take (length q - 50) q"
      by simp
    then show ?thesis
      unfolding q_def by (rule exI)
  next
    case False
    with eq have "messageQueueRef (push_bounded d s) = drop 0 q
        \<and> discarded (push_bounded d s) = discarded s @ take 0 q"
      by simp
    then show ?thesis
      unfolding q_def by (rule exI)
  qed
qed

lemma push_bounded_split:
  "mset (messageQueueRef (push_bounded d s)) + mset (discarded (push_bounded d s))
     = mset (messageQueueRef s @ [d]) + mset (discarded s)"
proof -
  obtain k where k: "messageQueueRef (push_bounded d s) = drop k (messageQueueRef s @ [d])"
    "discarded (push_bounded d s) = discarded s @ take k (messageQueueRef s @ [d])"
    using push_bounded_cut by blast
  have "mset (drop k xs) + mset (take k xs) = mset xs" for xs :: "message list"
    by (metis append_take_drop_id mset_append union_commute)
  then have "mset (drop k (messageQueueRef s @ [d])) + (mset (discarded s)
      + mset (take k (messageQueueRef s @ [d])))
      = mset (messageQueueRef s @ [d]) + mset (discarded s)"
    by (metis add.assoc add.commute)
  then show ?thesis
    unfolding k mset_append [of "discarded s"] .
qed

lemma push_bounded_subseq:
  "subseq (messageQueueRef (push_bounded d s)) (messageQueueRef s @ [d])"
proof -
  obtain k where k: "messageQueueRef (push_bounded d s) = drop k (messageQueueRef s @ [d])"
    using push_bounded_cut by blast
  have "subseq (drop k xs) xs" for xs :: "message list"
    by (metis append_take_drop_id subseq_drop_many subseq_order.order_refl)
  then show ?thesis
    unfolding k .
qed

lemma set_push_bounded:
  "set (messageQueueRef (push_bounded d s)) \<subseteq> insert d (set (messageQueueRef s))"
proof -
  have "set (drop k (messageQueueRef s @ [d])) \<subseteq> insert d (set (messageQueueRef s))" for k
    using set_drop_subset [of k "messageQueueRef s @ [d]"] by auto
  then show ?thesis
    by (simp add: push_bounded_queue)
qed

lemma tl_drop_Suc: "tl (drop k xs) = drop (Suc k) xs"
  by (simp add: tl_drop drop_Suc)


lemma book_after_queueMessage:
  assumes "\<not> processingRef s" "bookRef s = Some b"
  shows "bookRef (snd (queueMessage eng msg s)) =
           Some (b\<lparr>received := received b @ [hd (messageQueueRef (push_bounded msg s))]\<rparr>)"
proof -
  obtain m rest where q: "messageQueueRef (push_bounded msg s) = m # rest"
    using push_bounded_nonempty [of msg s] by (cases "messageQueueRef (push_bounded msg s)") auto
  show ?thesis
    using processNextMessage_active(1) [of "push_bounded msg s" m rest b eng] assms q
    by (simp add: queueMessage_def push_bounded_keeps)
qed

lemma queueMessage_fresh:
  assumes "bookRef s = Some b" "\<not> processingRef s" "messageQueueRef s = []"
  shows "bookRef (snd (queueMessage eng d s)) = Some (b\<lparr>received := received b @ [d]\<rparr>)"
    and "messageQueueRef (snd (queueMessage eng d s)) = []"
    and "discarded (snd (queueMessage eng d s)) = discarded s"
    and "processingRef (snd (queueMessage eng d s)) = False"
    and "sockets (snd (queueMessage eng d s)) = sockets s"
proof -
  have pushed: "push_bounded d s = s\<lparr>messageQueueRef := [d]\<rparr>"
    using assms(3) by (simp add: push_bounded_def)
  have act: "\<not> processingRef (s\<lparr>messageQueueRef := [d]\<rparr>)"
    "messageQueueRef (s\<lparr>messageQueueRef := [d]\<rparr>) = d # []"
    "bookRef (s\<lparr>messageQueueRef := [d]\<rparr>) = Some b"
    using assms by simp_all
  note after = processNextMessage_active [OF act, of eng]
  show "bookRef (snd (queueMessage eng d s)) = Some (b\<lparr>received := received b @ [d]\<rparr>)"
    "messageQueueRef (snd (queueMessage eng d s)) = []"
    "processingRef (snd (queueMessage eng d s)) = False"
    unfolding queueMessage_def pushed by (rule after)+
  show "discarded (snd (queueMessage eng d s)) = discarded s"
    "sockets (snd (queueMessage eng d s)) = sockets s"
    unfolding queueMessage_def pushed by (simp_all add: processNextMessage_frame)
qed

section \<open>The session controller, step by step\<close>

lemmas controller_defs =
  connect_effect_def retire_previous_session_def cleanup_previous_orderbook_def
  clear_previous_state_def close_previous_websocket_def open_session_def call_free_def
  and_then_def try_catch_def rerun_connect_effect_def run_cleanup_def effect_cleanup_def
  ws_close_def ws_send_def update_socket_def handleSymbolChange_def unmount_cleanup_def
  ws_onopen_def ws_onclose_def ws_onmessage_def with_depth_def set_precision_def Let_def

lemma fresh_book_fields [simp]:
  "book_symbol (fresh_book x) = x" "book_depth (fresh_book x) = 25"
  "received (fresh_book x) = []" "free_calls (fresh_book x) = 0"
  by (simp_all add: fresh_book_def)

lemma SYMBOL_PRECISION_table:
  "(case SYMBOL_PRECISION x of Some pq \<Rightarrow> pq | None \<Rightarrow> (2, 8)) =
     (if x = ''BTC/USD'' then (1, 8) else if x = ''ETH/USD'' then (2, 8)
      else if x = ''SOL/USD'' then (2, 8) else if x = ''XRP/USD'' then (5, 8)
      else if x = ''ADA/USD'' then (6, 8) else (2, 8))"
  by (simp add: SYMBOL_PRECISION_def)

lemma length_closed [simp]: "length (closed_sockets r ss) = length ss"
  by (simp add: closed_sockets_def split: option.split)

lemma nth_closed:
  "w < length ss \<Longrightarrow> mounted (closed_sockets r ss ! w) = mounted (ss ! w)
     \<and> sock_symbol (closed_sockets r ss ! w) = sock_symbol (ss ! w)
     \<and> sent (closed_sockets r ss ! w) = sent (ss ! w)"
  by (simp add: closed_sockets_def nth_list_update split: option.split)

lemma retire_eq:
  "retire_previous_session eng s = (None,
     s\<lparr>bids := [], asks := [], spread := None, midPrice := None, updateCount := 0,
       checksumValid := True, messageQueueRef := [], processingRef := False,
       bookRef := None,
       released := released s @
         (case bookRef s of None \<Rightarrow> [] | Some b \<Rightarrow> [b\<lparr>free_calls := free_calls b + 1\<rparr>]),
       sockets := closed_sockets (wsRef s) (sockets s),
       wsRef := None\<rparr>)"
  by (simp add: controller_defs closed_sockets_def split: option.split prod.split)

lemma listed_not_inherited: "x \<in> set SYMBOLS \<Longrightarrow> x \<notin> set Object_prototype"
  by (auto simp: SYMBOLS_def Object_prototype_def)

lemma destructure_precision_plain:
  "x \<notin> set Object_prototype \<Longrightarrow>
     destructure_precision x
       = Inr (case SYMBOL_PRECISION x of Some pq \<Rightarrow> pq | None \<Rightarrow> (2, 8))"
  by (simp add: destructure_precision_def get_property_def split: option.split)

lemma destructure_precision_inherited:
  "x \<in> set Object_prototype \<Longrightarrow> destructure_precision x = Inl TypeError"
  by (auto simp: destructure_precision_def get_property_def SYMBOL_PRECISION_def
      Object_prototype_def)

lemma connect_effect_eq:
  "sdkReady s \<Longrightarrow> symbol s \<notin> set Object_prototype \<Longrightarrow> connect_effect eng s = (None,
     s\<lparr>bids := [], asks := [], spread := None, midPrice := None, updateCount := 0,
       checksumValid := True, messageQueueRef := [], processingRef := False,
       bookRef := Some (fresh_book (symbol s)),
       released := released s @
         (case bookRef s of None \<Rightarrow> [] | Some b \<Rightarrow> [b\<lparr>free_calls := free_calls b + 1\<rparr>]),
       sockets := closed_sockets (wsRef s) (sockets s) @
         [\<lparr>sock_symbol = symbol s, mounted = True, sent = [], close_calls = 0\<rparr>],
       wsRef := Some (length (sockets s)),
       cleanup := Some (length (sockets s))\<rparr>)"
  by (simp add: connect_effect_def retire_eq and_then_def open_session_def fresh_book_def
      destructure_precision_plain with_depth_def set_precision_def closed_sockets_def Let_def
      split: option.split prod.split)

text \<open>
  For a symbol that names a member inherited from \<open>Object.prototype\<close> the effect retires
  the previous session, creates the new handle and then throws: no precision is set, no
  socket is created and no cleanup function is returned.
\<close>

lemma connect_effect_inherited:
  "sdkReady s \<Longrightarrow> symbol s \<in> set Object_prototype \<Longrightarrow> connect_effect eng s = (Some TypeError,
     s\<lparr>bids := [], asks := [], spread := None, midPrice := None, updateCount := 0,
       checksumValid := True, messageQueueRef := [], processingRef := False,
       bookRef := Some (with_depth (symbol s) 25),
       released := released s @
         (case bookRef s of None \<Rightarrow> [] | Some b \<Rightarrow> [b\<lparr>free_calls := free_calls b + 1\<rparr>]),
       sockets := closed_sockets (wsRef s) (sockets s),
       wsRef := None\<rparr>)"
  by (simp add: connect_effect_def retire_eq and_then_def open_session_def
      destructure_precision_inherited Let_def)

lemma connect_effect_normal:
  assumes "symbol t \<notin> set Object_prototype"
  shows "fst (connect_effect eng t) = None"
proof (cases "sdkReady t")
  case True
  with assms show ?thesis
    by (simp add: connect_effect_eq)
next
  case False
  then show ?thesis by (simp add: connect_effect_def)
qed

lemma connect_effect_frame:
  "connected_flag (snd (connect_effect eng t)) = connected_flag t"
  "symbol (snd (connect_effect eng t)) = symbol t"
  "sdkReady (snd (connect_effect eng t)) = sdkReady t"
  "alive (snd (connect_effect eng t)) = alive t"
  "published (snd (connect_effect eng t)) = published t"
proof -
  consider "\<not> sdkReady t" | "sdkReady t" "symbol t \<notin> set Object_prototype"
    | "sdkReady t" "symbol t \<in> set Object_prototype"
    by blast
  then have "connected_flag (snd (connect_effect eng t)) = connected_flag t
    \<and> symbol (snd (connect_effect eng t)) = symbol t
    \<and> sdkReady (snd (connect_effect eng t)) = sdkReady t
    \<and> alive (snd (connect_effect eng t)) = alive t
    \<and> published (snd (connect_effect eng t)) = published t"
  proof cases
    case 1
    then show ?thesis by (simp add: connect_effect_def)
  next
    case 2
    then show ?thesis by (simp add: connect_effect_eq)
  next
    case 3
    then show ?thesis by (simp add: connect_effect_inherited)
  qed
  then show "connected_flag (snd (connect_effect eng t)) = connected_flag t"
    "symbol (snd (connect_effect eng t)) = symbol t"
    "sdkReady (snd (connect_effect eng t)) = sdkReady t"
    "alive (snd (connect_effect eng t)) = alive t"
    "published (snd (connect_effect eng t)) = published t"
    by simp_all
qed

lemma run_cleanup_eq:
  "run_cleanup s = (case cleanup s of None \<Rightarrow> s
     | Some w \<Rightarrow> if w < length (sockets s)
         then s\<lparr>sockets := (sockets s)[w := (sockets s ! w)\<lparr>mounted := False,
                    close_calls := close_calls (sockets s ! w) + 1\<rparr>], cleanup := None\<rparr>
         else s\<lparr>cleanup := None\<rparr>)"
  by (simp add: run_cleanup_def effect_cleanup_def ws_close_def update_socket_def
      split: option.split)

lemma run_cleanup_frame:
  "cleanup (run_cleanup s) = None"
  "length (sockets (run_cleanup s)) = length (sockets s)"
  "symbol (run_cleanup s) = symbol s" "sdkReady (run_cleanup s) = sdkReady s"
  "alive (run_cleanup s) = alive s" "wsRef (run_cleanup s) = wsRef s"
  "bookRef (run_cleanup s) = bookRef s"
  by (simp_all add: run_cleanup_eq split: option.split)

lemma run_cleanup_frame2:
  "messageQueueRef (run_cleanup s) = messageQueueRef s"
  "published (run_cleanup s) = published s"
  "processingRef (run_cleanup s) = processingRef s"
  "timers (run_cleanup s) = timers s"
  "released (run_cleanup s) = released s"
  "connected_flag (run_cleanup s) = connected_flag s"
  by (simp_all add: run_cleanup_eq split: option.split)

lemma run_cleanup_unmounts:
  assumes single: "\<And>w. w < length (sockets s) \<Longrightarrow> mounted (sockets s ! w) \<Longrightarrow> cleanup s = Some w"
    and w: "w < length (sockets s)"
  shows "\<not> mounted (sockets (run_cleanup s) ! w)"
proof (cases "cleanup s")
  case None
  then have "\<not> mounted (sockets s ! w)"
    using single [OF w] by auto
  with None show ?thesis
    by (simp add: run_cleanup_eq)
next
  case (Some w')
  show ?thesis
  proof (cases "w = w'")
    case True
    with Some w show ?thesis
      by (simp add: run_cleanup_eq)
  next
    case False
    then have "\<not> mounted (sockets s ! w)"
      using single [OF w] Some by auto
    with Some False show ?thesis
      by (simp add: run_cleanup_eq)
  qed
qed

lemma unmount_cleanup_eq:
  "unmount_cleanup eng s = (None,
     s\<lparr>bookRef := map_option (\<lambda>b. b\<lparr>free_calls := free_calls b + 1\<rparr>) (bookRef s),
       released := released s @
         (case bookRef s of None \<Rightarrow> [] | Some b \<Rightarrow> [b\<lparr>free_calls := free_calls b + 1\<rparr>]),
       sockets := closed_sockets (wsRef s) (sockets s)\<rparr>)"
  by (simp add: controller_defs closed_sockets_def split: option.split prod.split)

lemma ws_onopen_eq:
  "ws_onopen w s = (if w < length (sockets s) \<and> mounted (sockets s ! w)
     then s\<lparr>connected_flag := True,
            sockets := (sockets s)[w := (sockets s ! w)\<lparr>sent := sent (sockets s ! w) @
              [\<lparr>req_method = ''subscribe'',
                params = \<lparr>channel = ''book'',
                          params_symbol = [sock_symbol (sockets s ! w)],
                          depth = 25\<rparr>\<rparr>]\<rparr>]\<rparr>
     else if mounted (sockets s ! w) then s\<lparr>connected_flag := True\<rparr> else s)"
  by (simp add: ws_onopen_def ws_send_def update_socket_def)

lemma ws_onopen_frame:
  "bookRef (ws_onopen w s) = bookRef s" "symbol (ws_onopen w s) = symbol s"
  "sdkReady (ws_onopen w s) = sdkReady s" "messageQueueRef (ws_onopen w s) = messageQueueRef s"
  "processingRef (ws_onopen w s) = processingRef s"
  by (simp_all add: ws_onopen_eq)

lemma ws_onclose_frame:
  "bookRef (ws_onclose w s) = bookRef s" "symbol (ws_onclose w s) = symbol s"
  "sdkReady (ws_onclose w s) = sdkReady s" "messageQueueRef (ws_onclose w s) = messageQueueRef s"
  "processingRef (ws_onclose w s) = processingRef s"
  by (simp_all add: ws_onclose_def)

lemma commit_effect_normal: "fst r = None \<Longrightarrow> commit_effect eng r = r"
  by (cases r) (simp add: commit_effect_def)

lemma commit_effect_frame:
  "connected_flag (snd (commit_effect eng r)) = connected_flag (snd r)"
  "symbol (snd (commit_effect eng r)) = symbol (snd r)"
  by (cases r; cases "fst r";
      simp add: commit_effect_def unmount_cleanup_eq run_cleanup_frame run_cleanup_frame2)+

lemma rerun_normal:
  "symbol t \<notin> set Object_prototype \<Longrightarrow> fst (rerun_connect_effect eng t) = None"
  by (simp add: rerun_connect_effect_def connect_effect_normal run_cleanup_frame)

lemma commit_rerun:
  "symbol t \<in> set SYMBOLS \<Longrightarrow>
     commit_effect eng (rerun_connect_effect eng t) = rerun_connect_effect eng t"
  by (simp add: commit_effect_normal rerun_normal listed_not_inherited)

lemma handle_Select_eq:
  "handle eng s (Select x) =
     (if alive s \<and> x \<in> set SYMBOLS \<and> x \<noteq> symbol s
      then rerun_connect_effect eng (s\<lparr>symbol := x\<rparr>) else (None, s))"
proof (cases "alive s \<and> x \<in> set SYMBOLS")
  case True
  then show ?thesis
    by (cases "x = symbol s") (simp_all add: handleSymbolChange_def commit_rerun commit_effect_normal)
next
  case False
  then show ?thesis
    by auto
qed

lemma handle_SdkReady_eq:
  "symbol s \<in> set SYMBOLS \<Longrightarrow> handle eng s SdkReady =
     (if alive s \<and> \<not> sdkReady s then rerun_connect_effect eng (s\<lparr>sdkReady := True\<rparr>)
      else (None, s))"
  by (simp add: commit_rerun)

lemma handle_teardown_normal:
  "fst (handle eng s (Select x)) = None" "fst (handle eng s Unmount) = None"
proof -
  show "fst (handle eng s (Select x)) = None"
    unfolding handle_Select_eq by (simp add: rerun_normal listed_not_inherited)
  show "fst (handle eng s Unmount) = None"
    by (simp add: unmount_cleanup_eq)
qed

lemma connect_effect_toString:
  "fst (connect_effect eng (ready_world ''toString'')) = Some TypeError"
  "map_option precision (bookRef (snd (connect_effect eng (ready_world ''toString''))))
     = Some None"
  "sockets (snd (connect_effect eng (ready_world ''toString''))) = []"
  "cleanup (snd (connect_effect eng (ready_world ''toString''))) = None"
  "alive (step eng (init_world\<lparr>symbol := ''toString''\<rparr>) SdkReady) = False"
proof -
  have ready: "sdkReady (ready_world ''toString'')"
    "symbol (ready_world ''toString'') \<in> set Object_prototype"
    by (simp_all add: ready_world_def Object_prototype_def)
  show "fst (connect_effect eng (ready_world ''toString'')) = Some TypeError"
    "map_option precision (bookRef (snd (connect_effect eng (ready_world ''toString''))))
       = Some None"
    "sockets (snd (connect_effect eng (ready_world ''toString''))) = []"
    "cleanup (snd (connect_effect eng (ready_world ''toString''))) = None"
    unfolding connect_effect_inherited [OF ready]
    by (simp_all add: ready_world_def with_depth_def closed_sockets_def)
  have "sdkReady (init_world\<lparr>symbol := ''toString'', sdkReady := True\<rparr>)"
    "symbol (init_world\<lparr>symbol := ''toString'', sdkReady := True\<rparr>) \<in> set Object_prototype"
    by (simp_all add: Object_prototype_def)
  note thrown = connect_effect_inherited [OF this]
  show "alive (step eng (init_world\<lparr>symbol := ''toString''\<rparr>) SdkReady) = False"
    by (simp add: step_def rerun_connect_effect_def run_cleanup_eq thrown commit_effect_def
        unmount_cleanup_eq)
qed

lemma step_Select_eq:
  assumes "session_inv s" "alive s" "sdkReady s" "x \<in> set SYMBOLS" "x \<noteq> symbol s"
  shows "step eng s (Select x) = snd (connect_effect eng (run_cleanup (s\<lparr>symbol := x\<rparr>)))"
  unfolding step_def handle_Select_eq using assms by (simp add: rerun_connect_effect_def)

lemma step_superseded:
  assumes "w < length (sockets s)" "\<not> mounted (sockets s ! w)"
  shows "step eng s (WsMessage w d) = s" "step eng s (WsOpen w) = s" "step eng s (WsClose w) = s"
  using assms by (simp_all add: step_def ws_onmessage_def ws_onopen_def ws_onclose_def)

lemmas run_defs =
  step_def handleSymbolChange_def rerun_connect_effect_def run_cleanup_eq connect_effect_eq
  closed_sockets_def fresh_book_def ws_onopen_eq ws_onclose_def ws_onmessage_def
  queueMessage_def push_bounded_def processor_defs unmount_cleanup_eq SYMBOLS_def
  commit_effect_def Object_prototype_def

section \<open>The invariants hold after every event\<close>

lemma session_inv_init: "session_inv init_world"
  by (simp add: session_inv_def SYMBOLS_def)

lemma session_inv_listed: "session_inv s \<Longrightarrow> symbol s \<in> set SYMBOLS"
  by (simp add: session_inv_def)

lemma session_inv_single:
  "session_inv s \<Longrightarrow> w < length (sockets s) \<Longrightarrow> mounted (sockets s ! w) \<Longrightarrow> cleanup s = Some w"
  unfolding session_inv_def by blast

lemma session_inv_quiet:
  assumes "cleanup s = None" "\<forall>w < length (sockets s). \<not> mounted (sockets s ! w)"
    and "\<not> (alive s \<and> sdkReady s)" and "symbol s \<in> set SYMBOLS"
  shows "session_inv s"
  using assms by (simp add: session_inv_def)

lemma session_inv_transfer:
  assumes "session_inv s"
    and len: "length (sockets s') = length (sockets s)"
    and same: "\<And>w. w < length (sockets s) \<Longrightarrow> mounted (sockets s' ! w) = mounted (sockets s ! w)
           \<and> sock_symbol (sockets s' ! w) = sock_symbol (sockets s ! w)"
    and eqs: "cleanup s' = cleanup s" "wsRef s' = wsRef s" "symbol s' = symbol s"
      "sdkReady s' = sdkReady s" "alive s' = alive s"
    and book: "bookRef s = None \<longleftrightarrow> bookRef s' = None"
  shows "session_inv s'"
proof -
  have 1: "\<forall>w < length (sockets s). mounted (sockets s ! w) \<longrightarrow>
        cleanup s = Some w \<and> sock_symbol (sockets s ! w) = symbol s"
    and 2: "\<forall>w. cleanup s = Some w \<longrightarrow>
          wsRef s = Some w \<and> w < length (sockets s) \<and> mounted (sockets s ! w)
          \<and> sdkReady s \<and> alive s"
    and 3: "alive s \<and> sdkReady s \<longrightarrow> cleanup s \<noteq> None \<and> bookRef s \<noteq> None"
    and 4: "symbol s \<in> set SYMBOLS"
    using assms(1) unfolding session_inv_def by blast+
  show ?thesis
    unfolding session_inv_def len eqs
  proof (intro conjI allI impI)
    fix w assume "w < length (sockets s)" "mounted (sockets s' ! w)"
    then show "cleanup s = Some w" "sock_symbol (sockets s' ! w) = symbol s"
      using 1 same by auto
  next
    fix w assume "cleanup s = Some w"
    then show "wsRef s = Some w" "w < length (sockets s)" "mounted (sockets s' ! w)"
      "sdkReady s" "alive s"
      using 2 same by auto
  next
    assume "alive s \<and> sdkReady s"
    then show "cleanup s \<noteq> None" "bookRef s' \<noteq> None"
      using 3 book by auto
  next
    show "symbol s \<in> set SYMBOLS"
      by (rule 4)
  qed
qed

lemma session_inv_connect:
  assumes "\<forall>w < length (sockets s). \<not> mounted (sockets s ! w)"
    and "sdkReady s" "alive s" "symbol s \<in> set SYMBOLS"
  shows "session_inv (snd (connect_effect eng s))"
  unfolding session_inv_def connect_effect_eq [OF assms(2) listed_not_inherited [OF assms(4)]]
  using assms by (simp add: nth_append nth_closed less_Suc_eq)

lemma session_inv_rerun:
  assumes inv: "session_inv s" and "alive s"
    and t: "sockets t = sockets s" "cleanup t = cleanup s" "alive t = alive s"
    and ready: "sdkReady s \<Longrightarrow> sdkReady t"
    and listed: "symbol t \<in> set SYMBOLS"
  shows "session_inv (snd (rerun_connect_effect eng t))"
proof -
  have quiet: "\<not> mounted (sockets (run_cleanup t) ! w)" if "w < length (sockets (run_cleanup t))" for w
  proof (rule run_cleanup_unmounts)
    show "w < length (sockets t)"
      using that by (simp add: run_cleanup_frame)
    show "cleanup t = Some w'" if "w' < length (sockets t)" "mounted (sockets t ! w')" for w'
      using that session_inv_single [OF inv, of w'] t by simp
  qed
  show ?thesis
  proof (cases "sdkReady t")
    case True
    show ?thesis
      unfolding rerun_connect_effect_def
    proof (rule session_inv_connect)
      show "\<forall>w<length (sockets (run_cleanup t)). \<not> mounted (sockets (run_cleanup t) ! w)"
        using quiet by blast
      show "sdkReady (run_cleanup t)" "alive (run_cleanup t)"
        "symbol (run_cleanup t) \<in> set SYMBOLS"
        using True assms by (simp_all add: run_cleanup_frame)
    qed
  next
    case False
    then have "snd (rerun_connect_effect eng t) = run_cleanup t"
      by (simp add: rerun_connect_effect_def connect_effect_def run_cleanup_frame)
    moreover have "session_inv (run_cleanup t)"
    proof (rule session_inv_quiet)
      show "cleanup (run_cleanup t) = None"
        by (simp add: run_cleanup_frame)
      show "\<forall>w<length (sockets (run_cleanup t)). \<not> mounted (sockets (run_cleanup t) ! w)"
        using quiet by blast
      show "\<not> (alive (run_cleanup t) \<and> sdkReady (run_cleanup t))"
        using False by (simp add: run_cleanup_frame)
      show "symbol (run_cleanup t) \<in> set SYMBOLS"
        using listed by (simp add: run_cleanup_frame)
    qed
    ultimately show ?thesis by simp
  qed
qed

lemma session_inv_process:
  assumes "session_inv s"
    and "sockets t = sockets s" "cleanup t = cleanup s" "wsRef t = wsRef s"
      "symbol t = symbol s" "sdkReady t = sdkReady s" "alive t = alive s" "bookRef t = bookRef s"
  shows "session_inv (snd (processNextMessage eng t))"
  using assms(1)
proof (rule session_inv_transfer)
  show "(bookRef s = None) = (bookRef (snd (processNextMessage eng t)) = None)"
    using assms by (simp add: processNextMessage_book_None)
qed (simp_all add: processNextMessage_frame assms)

lemma session_inv_step:
  assumes inv: "session_inv s"
  shows "session_inv (step eng s ev)"
proof (cases ev)
  case SdkReady
  note listed = session_inv_listed [OF inv]
  show ?thesis
  proof (cases "alive s \<and> \<not> sdkReady s")
    case True
    then show ?thesis
      unfolding SdkReady step_def handle_SdkReady_eq [OF listed]
      using inv listed by (simp add: session_inv_rerun [where s = s])
  next
    case False
    then show ?thesis
      unfolding SdkReady step_def handle_SdkReady_eq [OF listed] using inv by auto
  qed
next
  case (Select x)
  show ?thesis
  proof (cases "alive s \<and> x \<in> set SYMBOLS \<and> x \<noteq> symbol s")
    case True
    then show ?thesis
      unfolding Select step_def handle_Select_eq
      using inv by (simp add: session_inv_rerun [where s = s])
  next
    case False
    then show ?thesis
      unfolding Select step_def handle_Select_eq using inv by auto
  qed
next
  case (WsOpen w)
  show ?thesis
  proof (cases "w < length (sockets s)")
    case True
    have "session_inv (ws_onopen w s)"
      using inv
      by (rule session_inv_transfer) (simp_all add: ws_onopen_eq nth_list_update)
    with True show ?thesis
      by (simp add: WsOpen step_def)
  next
    case False
    with inv show ?thesis
      by (simp add: WsOpen step_def)
  qed
next
  case (WsMessage w d)
  show ?thesis
  proof (cases "w < length (sockets s) \<and> mounted (sockets s ! w)")
    case True
    have "session_inv
        (snd (processNextMessage eng (push_bounded \<lparr>origin = w, payload = d\<rparr> s)))"
      using inv by (rule session_inv_process) (simp_all add: push_bounded_frame push_bounded_keeps)
    with True show ?thesis
      by (simp add: WsMessage step_def ws_onmessage_def queueMessage_def)
  next
    case False
    with inv show ?thesis
      by (auto simp: WsMessage step_def ws_onmessage_def)
  qed
next
  case (WsError w)
  with inv show ?thesis
    by (simp add: step_def)
next
  case (WsClose w)
  have "session_inv (ws_onclose w s)"
    using inv by (rule session_inv_transfer) (simp_all add: ws_onclose_def)
  with inv show ?thesis
    by (simp add: WsClose step_def)
next
  case Tick
  have "session_inv (snd (processNextMessage eng (s\<lparr>timers := timers s - 1\<rparr>)))"
    using inv by (rule session_inv_process) simp_all
  with inv show ?thesis
    by (simp add: Tick step_def)
next
  case Unmount
  show ?thesis
  proof (cases "alive s")
    case True
    have quiet: "\<not> mounted (sockets (run_cleanup s) ! w)" if "w < length (sockets s)" for w
      using session_inv_single [OF inv] that by (intro run_cleanup_unmounts) auto
    have "session_inv (snd (unmount_cleanup eng ((run_cleanup s)\<lparr>alive := False\<rparr>)))"
      by (rule session_inv_quiet)
        (simp_all add: unmount_cleanup_eq run_cleanup_frame nth_closed quiet
          session_inv_listed [OF inv])
    with True show ?thesis
      by (simp add: Unmount step_def)
  next
    case False
    with inv show ?thesis
      by (simp add: Unmount step_def)
  qed
qed

lemma session_inv_run: "session_inv s \<Longrightarrow> session_inv (run eng s evs)"
  by (induction evs arbitrary: s) (simp_all add: session_inv_step)

lemma origin_invI:
  assumes "\<And>d. d \<in> set (messageQueueRef s) \<Longrightarrow> wsRef s = Some (origin d)"
    and "\<And>b d. bookRef s = Some b \<Longrightarrow> d \<in> set (received b) \<Longrightarrow> wsRef s = Some (origin d)"
    and "\<And>cur d. (cur, d) \<in> set (published s) \<Longrightarrow> cur = Some (origin d)"
  shows "origin_inv s"
  unfolding origin_inv_def using assms by blast

lemma origin_invD:
  assumes "origin_inv s"
  shows "d \<in> set (messageQueueRef s) \<Longrightarrow> wsRef s = Some (origin d)"
    and "bookRef s = Some b \<Longrightarrow> d \<in> set (received b) \<Longrightarrow> wsRef s = Some (origin d)"
    and "(cur, d) \<in> set (published s) \<Longrightarrow> cur = Some (origin d)"
  using assms unfolding origin_inv_def by blast+

lemma origin_inv_init: "origin_inv init_world"
  by (simp add: origin_inv_def)

lemma origin_inv_transfer:
  assumes "origin_inv s"
    and "messageQueueRef s' = messageQueueRef s" "wsRef s' = wsRef s"
    and "published s' = published s"
    and "map_option received (bookRef s') = map_option received (bookRef s)"
  shows "origin_inv s'"
proof (rule origin_invI)
  fix d assume "d \<in> set (messageQueueRef s')"
  then show "wsRef s' = Some (origin d)"
    using origin_invD(1) [OF assms(1)] assms by simp
next
  fix b d assume b: "bookRef s' = Some b" and d: "d \<in> set (received b)"
  then obtain b0 where "bookRef s = Some b0" "received b0 = received b"
    using assms(5) by (cases "bookRef s") auto
  then show "wsRef s' = Some (origin d)"
    using origin_invD(2) [OF assms(1), of b0 d] d assms by simp
next
  fix cur d assume "(cur, d) \<in> set (published s')"
  then show "cur = Some (origin d)"
    using origin_invD(3) [OF assms(1)] assms by simp
qed

lemma origin_inv_process:
  assumes inv: "origin_inv s"
  shows "origin_inv (snd (processNextMessage eng s))"
proof (cases "processingRef s \<or> messageQueueRef s = [] \<or> bookRef s = None")
  case True
  with inv show ?thesis
    by (simp add: processNextMessage_idle)
next
  case False
  then obtain m rest b where
    act: "\<not> processingRef s" "messageQueueRef s = m # rest" "bookRef s = Some b"
    by (cases "messageQueueRef s") auto
  note after = processNextMessage_active [OF act, of eng]
  have m: "wsRef s = Some (origin m)"
    using origin_invD(1) [OF inv, of m] act by simp
  show ?thesis
  proof (rule origin_invI)
    fix d assume "d \<in> set (messageQueueRef (snd (processNextMessage eng s)))"
    then have "d \<in> set (messageQueueRef s)"
      using after(2) act by simp
    then show "wsRef (snd (processNextMessage eng s)) = Some (origin d)"
      using origin_invD(1) [OF inv] by (simp add: processNextMessage_frame)
  next
    fix b' d
    assume "bookRef (snd (processNextMessage eng s)) = Some b'" "d \<in> set (received b')"
    then have "d \<in> set (received b) \<or> d = m"
      using after(1) by auto
    then show "wsRef (snd (processNextMessage eng s)) = Some (origin d)"
      using origin_invD(2) [OF inv act(3)] m by (auto simp: processNextMessage_frame)
  next
    fix cur d assume "(cur, d) \<in> set (published (snd (processNextMessage eng s)))"
    then have "(cur, d) \<in> set (published s) \<or> (cur, d) = (wsRef s, m)"
      using after(5) by auto
    then show "cur = Some (origin d)"
      using origin_invD(3) [OF inv] m by auto
  qed
qed

lemma origin_inv_push:
  assumes "origin_inv s" "wsRef s = Some (origin d)"
  shows "origin_inv (push_bounded d s)"
proof (rule origin_invI)
  fix d' assume "d' \<in> set (messageQueueRef (push_bounded d s))"
  then have "d' = d \<or> d' \<in> set (messageQueueRef s)"
    using set_push_bounded [of d s] by auto
  then show "wsRef (push_bounded d s) = Some (origin d')"
    using assms origin_invD(1) [OF assms(1)] by (auto simp: push_bounded_frame)
next
  fix b d' assume "bookRef (push_bounded d s) = Some b" "d' \<in> set (received b)"
  then show "wsRef (push_bounded d s) = Some (origin d')"
    using origin_invD(2) [OF assms(1)] by (simp add: push_bounded_frame push_bounded_keeps)
next
  fix cur d' assume "(cur, d') \<in> set (published (push_bounded d s))"
  then show "cur = Some (origin d')"
    using origin_invD(3) [OF assms(1)] by (simp add: push_bounded_frame)
qed

lemma origin_inv_rerun:
  assumes inv: "origin_inv s"
    and t: "messageQueueRef t = messageQueueRef s" "wsRef t = wsRef s" "published t = published s"
      "bookRef t = bookRef s"
    and listed: "symbol t \<in> set SYMBOLS"
  shows "origin_inv (snd (rerun_connect_effect eng t))"
proof (cases "sdkReady t")
  case True
  then have ready: "sdkReady (run_cleanup t)"
    by (simp add: run_cleanup_frame)
  have plain: "symbol (run_cleanup t) \<notin> set Object_prototype"
    using listed by (simp add: run_cleanup_frame listed_not_inherited)
  show ?thesis
    unfolding rerun_connect_effect_def connect_effect_eq [OF ready plain]
    using origin_invD(3) [OF inv] t
    by (intro origin_invI) (auto simp: fresh_book_def run_cleanup_frame2)
next
  case False
  then have "snd (rerun_connect_effect eng t) = run_cleanup t"
    by (simp add: rerun_connect_effect_def connect_effect_def run_cleanup_frame)
  moreover have "origin_inv (run_cleanup t)"
    using inv by (rule origin_inv_transfer) (simp_all add: run_cleanup_frame run_cleanup_frame2 t)
  ultimately show ?thesis by simp
qed

lemma origin_inv_step:
  assumes sinv: "session_inv s" and inv: "origin_inv s"
  shows "origin_inv (step eng s ev)"
proof (cases ev)
  case SdkReady
  note listed = session_inv_listed [OF sinv]
  show ?thesis
  proof (cases "alive s \<and> \<not> sdkReady s")
    case True
    then show ?thesis
      unfolding SdkReady step_def handle_SdkReady_eq [OF listed]
      using inv listed by (simp add: origin_inv_rerun [where s = s])
  next
    case False
    then show ?thesis
      unfolding SdkReady step_def handle_SdkReady_eq [OF listed] using inv by auto
  qed
next
  case (Select x)
  show ?thesis
  proof (cases "alive s \<and> x \<in> set SYMBOLS \<and> x \<noteq> symbol s")
    case True
    then show ?thesis
      unfolding Select step_def handle_Select_eq
      using inv by (simp add: origin_inv_rerun [where s = s])
  next
    case False
    then show ?thesis
      unfolding Select step_def handle_Select_eq using inv by auto
  qed
next
  case (WsOpen w)
  have "origin_inv (ws_onopen w s)"
    using inv by (rule origin_inv_transfer) (simp_all add: ws_onopen_eq)
  with inv show ?thesis
    by (simp add: WsOpen step_def)
next
  case (WsMessage w d)
  show ?thesis
  proof (cases "w < length (sockets s) \<and> mounted (sockets s ! w)")
    case True
    then have "cleanup s = Some w"
      using session_inv_single [OF sinv] by simp
    then have "wsRef s = Some w"
      using sinv unfolding session_inv_def by blast
    then have "wsRef s = Some (origin \<lparr>origin = w, payload = d\<rparr>)"
      by simp
    then have "origin_inv
        (snd (processNextMessage eng (push_bounded \<lparr>origin = w, payload = d\<rparr> s)))"
      using inv by (intro origin_inv_process origin_inv_push)
    with True show ?thesis
      by (simp add: WsMessage step_def ws_onmessage_def queueMessage_def)
  next
    case False
    with inv show ?thesis
      by (auto simp: WsMessage step_def ws_onmessage_def)
  qed
next
  case (WsError w)
  with inv show ?thesis
    by (simp add: step_def)
next
  case (WsClose w)
  have "origin_inv (ws_onclose w s)"
    using inv by (rule origin_inv_transfer) (simp_all add: ws_onclose_def)
  with inv show ?thesis
    by (simp add: WsClose step_def)
next
  case Tick
  have "origin_inv (s\<lparr>timers := timers s - 1\<rparr>)"
    using inv by (rule origin_inv_transfer) simp_all
  then have "origin_inv (snd (processNextMessage eng (s\<lparr>timers := timers s - 1\<rparr>)))"
    by (rule origin_inv_process)
  with inv show ?thesis
    by (simp add: Tick step_def)
next
  case Unmount
  have "origin_inv (snd (unmount_cleanup eng ((run_cleanup s)\<lparr>alive := False\<rparr>)))"
    using inv
    by (rule origin_inv_transfer)
      (simp_all add: unmount_cleanup_eq run_cleanup_frame run_cleanup_frame2
        option.map_comp comp_def)
  with inv show ?thesis
    by (simp add: Unmount step_def)
qed

lemma invariants_run:
  assumes "session_inv s" "origin_inv s"
  shows "session_inv (run eng s evs) \<and> origin_inv (run eng s evs)"
  using assms
proof (induction evs arbitrary: s)
  case Nil
  then show ?case by simp
next
  case (Cons ev evs)
  have "session_inv (step eng s ev)"
    using Cons.prems(1) by (rule session_inv_step)
  moreover have "origin_inv (step eng s ev)"
    using Cons.prems by (rule origin_inv_step)
  ultimately show ?case
    using Cons.IH [of "step eng s ev"] by simp
qed

section \<open>The handle in place, and the processor between events\<close>

lemma handle_inv_init: "handle_inv init_world"
  by (simp add: handle_inv_def)

lemma handle_inv_transfer:
  assumes "handle_inv s" "symbol s' = symbol s" "sdkReady s' = sdkReady s"
    and "\<And>b'. bookRef s' = Some b' \<Longrightarrow>
          \<exists>b. bookRef s = Some b \<and> book_symbol b' = book_symbol b
            \<and> book_depth b' = book_depth b \<and> precision b' = precision b"
  shows "handle_inv s'"
  unfolding handle_inv_def
proof (intro allI impI)
  fix b' assume "bookRef s' = Some b'"
  then obtain b where b: "bookRef s = Some b" "book_symbol b' = book_symbol b"
    "book_depth b' = book_depth b" "precision b' = precision b"
    using assms(4) by blast
  have "sdkReady s \<and> book_symbol b = symbol s \<and> book_depth b = 25
      \<and> precision b = Some (case SYMBOL_PRECISION (symbol s) of
                              Some pq \<Rightarrow> pq | None \<Rightarrow> (2, 8))"
    using assms(1) b(1) unfolding handle_inv_def by blast
  then show "sdkReady s' \<and> book_symbol b' = symbol s' \<and> book_depth b' = 25
      \<and> precision b' = Some (case SYMBOL_PRECISION (symbol s') of
                               Some pq \<Rightarrow> pq | None \<Rightarrow> (2, 8))"
    using b assms(2,3) by simp
qed

lemma handle_inv_process:
  assumes "handle_inv t"
  shows "handle_inv (snd (processNextMessage eng t))"
  using assms
proof (rule handle_inv_transfer)
  fix b' assume b': "bookRef (snd (processNextMessage eng t)) = Some b'"
  then obtain b where b: "bookRef t = Some b"
    using processNextMessage_book_None [of eng t] by (cases "bookRef t") auto
  obtain new where
    "bookRef (snd (processNextMessage eng t)) = Some (b\<lparr>received := received b @ new\<rparr>)"
    using processNextMessage_at_most_one [OF b, of eng] by blast
  with b' b show "\<exists>b. bookRef t = Some b \<and> book_symbol b' = book_symbol b
      \<and> book_depth b' = book_depth b \<and> precision b' = precision b"
    by auto
qed (simp_all add: processNextMessage_frame)

lemma handle_inv_rerun:
  assumes "symbol t \<in> set SYMBOLS" "\<not> sdkReady t \<Longrightarrow> bookRef t = None"
  shows "handle_inv (snd (rerun_connect_effect eng t))"
proof (cases "sdkReady t")
  case True
  then have ready: "sdkReady (run_cleanup t)"
    by (simp add: run_cleanup_frame)
  have plain: "symbol (run_cleanup t) \<notin> set Object_prototype"
    using assms(1) by (simp add: run_cleanup_frame listed_not_inherited)
  show ?thesis
    unfolding rerun_connect_effect_def connect_effect_eq [OF ready plain]
    using True by (simp add: handle_inv_def fresh_book_def run_cleanup_frame)
next
  case False
  then have "snd (rerun_connect_effect eng t) = run_cleanup t"
    by (simp add: rerun_connect_effect_def connect_effect_def run_cleanup_frame)
  then show ?thesis
    using assms(2) [OF False] by (simp add: handle_inv_def run_cleanup_frame)
qed

lemma handle_inv_step:
  assumes sinv: "session_inv s" and inv: "handle_inv s"
  shows "handle_inv (step eng s ev)"
proof (cases ev)
  case SdkReady
  note listed = session_inv_listed [OF sinv]
  show ?thesis
  proof (cases "alive s \<and> \<not> sdkReady s")
    case True
    have "handle_inv (snd (rerun_connect_effect eng (s\<lparr>sdkReady := True\<rparr>)))"
      by (rule handle_inv_rerun) (simp_all add: listed)
    with True show ?thesis
      unfolding SdkReady step_def handle_SdkReady_eq [OF listed] by simp
  next
    case False
    then show ?thesis
      unfolding SdkReady step_def handle_SdkReady_eq [OF listed] using inv by auto
  qed
next
  case (Select x)
  show ?thesis
  proof (cases "alive s \<and> x \<in> set SYMBOLS \<and> x \<noteq> symbol s")
    case True
    have none: "bookRef s = None" if "\<not> sdkReady s"
      using inv that unfolding handle_inv_def by (cases "bookRef s") auto
    have "handle_inv (snd (rerun_connect_effect eng (s\<lparr>symbol := x\<rparr>)))"
      by (rule handle_inv_rerun) (use True none in simp_all)
    with True show ?thesis
      unfolding Select step_def handle_Select_eq by simp
  next
    case False
    then show ?thesis
      unfolding Select step_def handle_Select_eq using inv by auto
  qed
next
  case (WsOpen w)
  have "handle_inv (ws_onopen w s)"
    using inv by (rule handle_inv_transfer) (simp_all add: ws_onopen_frame)
  with inv show ?thesis
    by (simp add: WsOpen step_def)
next
  case (WsMessage w d)
  have "handle_inv (push_bounded \<lparr>origin = w, payload = d\<rparr> s)"
    using inv by (rule handle_inv_transfer) (simp_all add: push_bounded_frame push_bounded_keeps)
  then have "handle_inv
      (snd (processNextMessage eng (push_bounded \<lparr>origin = w, payload = d\<rparr> s)))"
    by (rule handle_inv_process)
  with inv show ?thesis
    by (simp add: WsMessage step_def ws_onmessage_def queueMessage_def)
next
  case (WsError w)
  with inv show ?thesis
    by (simp add: step_def)
next
  case (WsClose w)
  have "handle_inv (ws_onclose w s)"
    using inv by (rule handle_inv_transfer) (simp_all add: ws_onclose_frame)
  with inv show ?thesis
    by (simp add: WsClose step_def)
next
  case Tick
  have "handle_inv (s\<lparr>timers := timers s - 1\<rparr>)"
    using inv by (rule handle_inv_transfer) simp_all
  then have "handle_inv (snd (processNextMessage eng (s\<lparr>timers := timers s - 1\<rparr>)))"
    by (rule handle_inv_process)
  with inv show ?thesis
    by (simp add: Tick step_def)
next
  case Unmount
  have "handle_inv (snd (unmount_cleanup eng ((run_cleanup s)\<lparr>alive := False\<rparr>)))"
    using inv
    by (rule handle_inv_transfer) (auto simp: unmount_cleanup_eq run_cleanup_frame)
  with inv show ?thesis
    by (simp add: Unmount step_def)
qed

lemma idle_inv_init: "idle_inv init_world"
  by (simp add: idle_inv_def)

lemma idle_inv_rerun:
  assumes "idle_inv t" "symbol t \<in> set SYMBOLS"
  shows "idle_inv (snd (rerun_connect_effect eng t))"
proof (cases "sdkReady t")
  case True
  then have ready: "sdkReady (run_cleanup t)"
    by (simp add: run_cleanup_frame)
  have plain: "symbol (run_cleanup t) \<notin> set Object_prototype"
    using assms(2) by (simp add: run_cleanup_frame listed_not_inherited)
  show ?thesis
    unfolding rerun_connect_effect_def connect_effect_eq [OF ready plain]
    by (simp add: idle_inv_def)
next
  case False
  then have "snd (rerun_connect_effect eng t) = run_cleanup t"
    by (simp add: rerun_connect_effect_def connect_effect_def run_cleanup_frame)
  then show ?thesis
    using assms(1) by (simp add: idle_inv_def run_cleanup_frame2)
qed

lemma idle_inv_step:
  assumes sinv: "session_inv s" and inv: "idle_inv s"
  shows "idle_inv (step eng s ev)"
proof (cases ev)
  case SdkReady
  note listed = session_inv_listed [OF sinv]
  show ?thesis
  proof (cases "alive s \<and> \<not> sdkReady s")
    case True
    have "idle_inv (snd (rerun_connect_effect eng (s\<lparr>sdkReady := True\<rparr>)))"
      by (rule idle_inv_rerun) (use inv listed in \<open>simp_all add: idle_inv_def\<close>)
    with True show ?thesis
      unfolding SdkReady step_def handle_SdkReady_eq [OF listed] by simp
  next
    case False
    then show ?thesis
      unfolding SdkReady step_def handle_SdkReady_eq [OF listed] using inv by auto
  qed
next
  case (Select x)
  show ?thesis
  proof (cases "alive s \<and> x \<in> set SYMBOLS \<and> x \<noteq> symbol s")
    case True
    have "idle_inv (snd (rerun_connect_effect eng (s\<lparr>symbol := x\<rparr>)))"
      by (rule idle_inv_rerun) (use inv True in \<open>simp_all add: idle_inv_def\<close>)
    with True show ?thesis
      unfolding Select step_def handle_Select_eq by simp
  next
    case False
    then show ?thesis
      unfolding Select step_def handle_Select_eq using inv by auto
  qed
next
  case (WsOpen w)
  with inv show ?thesis
    by (simp add: step_def ws_onopen_frame idle_inv_def)
next
  case (WsMessage w d)
  show ?thesis
  proof (cases "w < length (sockets s) \<and> mounted (sockets s ! w)")
    case True
    then have "cleanup s = Some w"
      using session_inv_single [OF sinv] by simp
    then have "bookRef s \<noteq> None"
      using sinv unfolding session_inv_def by blast
    then obtain b where b: "bookRef s = Some b"
      by auto
    have idle: "\<not> processingRef s" "messageQueueRef s = []"
      using inv by (simp_all add: idle_inv_def)
    note after = queueMessage_fresh [OF b idle, of eng "\<lparr>origin = w, payload = d\<rparr>"]
    have "idle_inv (snd (queueMessage eng \<lparr>origin = w, payload = d\<rparr> s))"
      using after(2,4) by (simp add: idle_inv_def)
    with True show ?thesis
      by (simp add: WsMessage step_def ws_onmessage_def)
  next
    case False
    with inv show ?thesis
      by (auto simp: WsMessage step_def ws_onmessage_def)
  qed
next
  case (WsError w)
  with inv show ?thesis
    by (simp add: step_def)
next
  case (WsClose w)
  with inv show ?thesis
    by (simp add: step_def ws_onclose_frame idle_inv_def)
next
  case Tick
  have "processNextMessage eng (s\<lparr>timers := timers s - 1\<rparr>) = (None, s\<lparr>timers := timers s - 1\<rparr>)"
    using inv by (intro processNextMessage_idle) (simp add: idle_inv_def)
  with inv Tick show ?thesis
    by (simp add: step_def idle_inv_def)
next
  case Unmount
  with inv show ?thesis
    by (simp add: step_def unmount_cleanup_eq run_cleanup_frame2 idle_inv_def)
qed

lemma reachable_invariants:
  "session_inv (run eng init_world evs) \<and> handle_inv (run eng init_world evs)
   \<and> idle_inv (run eng init_world evs)"
proof -
  have "session_inv (run eng s evs) \<and> handle_inv (run eng s evs) \<and> idle_inv (run eng s evs)"
    if "session_inv s" "handle_inv s" "idle_inv s" for s
    using that
  proof (induction evs arbitrary: s)
    case Nil
    then show ?case by simp
  next
    case (Cons ev evs)
    have "session_inv (step eng s ev)"
      using Cons.prems(1) by (rule session_inv_step)
    moreover have "handle_inv (step eng s ev)"
      using Cons.prems(1,2) by (rule handle_inv_step)
    moreover have "idle_inv (step eng s ev)"
      using Cons.prems(1,3) by (rule idle_inv_step)
    ultimately show ?case
      using Cons.IH [of "step eng s ev"] by simp
  qed
  then show ?thesis
    using session_inv_init handle_inv_init idle_inv_init by blast
qed

section \<open>Requests and open signals\<close>

lemma sent_count_cong: "sockets s' = sockets s \<Longrightarrow> sent_count s' w = sent_count s w"
  by (simp add: sent_count_def)

lemma sent_count_process [simp]:
  "sent_count (snd (processNextMessage eng t)) w = sent_count t w"
  by (rule sent_count_cong) (simp add: processNextMessage_frame)

lemma sent_count_fields [simp]:
  "sent_count (push_bounded d s) w = sent_count s w"
  "sent_count (s\<lparr>timers := n\<rparr>) w = sent_count s w"
  "sent_count (s\<lparr>sdkReady := r\<rparr>) w = sent_count s w"
  "sent_count (s\<lparr>symbol := x\<rparr>) w = sent_count s w"
  "sent_count (s\<lparr>connected_flag := c\<rparr>) w = sent_count s w"
  by (simp_all add: sent_count_def push_bounded_frame)

lemma sent_count_run_cleanup: "sent_count (run_cleanup s) w = sent_count s w"
  by (simp add: sent_count_def run_cleanup_eq nth_list_update split: option.split)

lemma sent_count_connect:
  "sent_count (snd (connect_effect eng s)) w = sent_count s w"
proof -
  consider "\<not> sdkReady s" | "sdkReady s" "symbol s \<notin> set Object_prototype"
    | "sdkReady s" "symbol s \<in> set Object_prototype"
    by blast
  then show ?thesis
  proof cases
    case 1
    then show ?thesis by (simp add: connect_effect_def)
  next
    case 2
    then show ?thesis
      by (simp add: sent_count_def connect_effect_eq nth_append nth_closed)
  next
    case 3
    then show ?thesis
      by (simp add: sent_count_def connect_effect_inherited nth_closed)
  qed
qed

lemma sent_count_rerun: "sent_count (snd (rerun_connect_effect eng s)) w = sent_count s w"
  by (simp add: rerun_connect_effect_def sent_count_connect sent_count_run_cleanup)

lemma sent_count_unmount:
  "sent_count (snd (unmount_cleanup eng ((run_cleanup s)\<lparr>alive := False\<rparr>))) w = sent_count s w"
proof -
  have "sent_count (snd (unmount_cleanup eng ((run_cleanup s)\<lparr>alive := False\<rparr>))) w
      = sent_count (run_cleanup s) w"
    by (simp add: sent_count_def unmount_cleanup_eq nth_closed)
  then show ?thesis
    by (simp add: sent_count_run_cleanup)
qed

lemma sent_count_commit:
  "sent_count (snd (commit_effect eng r)) w = sent_count (snd r) w"
  by (cases r; cases "fst r"; simp add: commit_effect_def sent_count_unmount)

lemma sent_count_step:
  "sent_count (step eng s ev) w \<le> sent_count s w + (if ev = WsOpen w then 1 else 0)"
proof (cases ev)
  case SdkReady
  then show ?thesis
    by (simp add: step_def sent_count_commit sent_count_rerun)
next
  case (Select x)
  then show ?thesis
    by (simp add: step_def handle_Select_eq sent_count_rerun del: handle.simps)
next
  case (WsOpen w')
  then show ?thesis
    by (simp add: step_def ws_onopen_eq sent_count_def nth_list_update)
next
  case (WsMessage w' d)
  then show ?thesis
    by (simp add: step_def ws_onmessage_def queueMessage_def)
next
  case (WsError w')
  then show ?thesis by (simp add: step_def)
next
  case (WsClose w')
  then show ?thesis
    by (simp add: step_def ws_onclose_def)
next
  case Tick
  then show ?thesis
    by (simp add: step_def)
next
  case Unmount
  then show ?thesis
    by (simp add: step_def sent_count_unmount)
qed

lemma sent_count_run:
  "sent_count (run eng s evs) w \<le> sent_count s w + count_list evs (WsOpen w)"
proof (induction evs arbitrary: s)
  case Nil
  then show ?case by simp
next
  case (Cons ev evs)
  show ?case
    using Cons.IH [of "step eng s ev"] sent_count_step [of eng s ev w]
    by (cases "ev = WsOpen w") auto
qed

section \<open>What a session's traffic carries\<close>

lemma carried_refl:
  assumes "bookRef s = Some b" "\<not> processingRef s" "messageQueueRef s \<noteq> [] \<longrightarrow> 0 < timers s"
  shows "carried s s []"
  unfolding carried_def using assms by (intro conjI exI [of _ b] exI [of _ "[]"]) simp_all

lemma carried_active:
  assumes idle: "\<not> processingRef t" and q: "messageQueueRef t = m # rest"
    and book: "bookRef t = Some b" and "sockets t = sockets s"
    and base: "bookRef s = Some b"
    and sub: "subseq (m # rest) (messageQueueRef s @ input)"
    and ms: "mset (m # rest) + mset (discarded t) = mset (messageQueueRef s @ input) + mset (discarded s)"
  shows "carried s (snd (processNextMessage eng t)) input"
proof -
  note after = processNextMessage_active [OF idle q book, of eng]
  show ?thesis
    unfolding carried_def
  proof (intro conjI exI [of _ b] exI [of _ "[m]"])
    show "bookRef s = Some b" by fact
    show "bookRef (snd (processNextMessage eng t)) = Some (b\<lparr>received := received b @ [m]\<rparr>)"
      by (rule after(1))
    show "subseq ([m] @ messageQueueRef (snd (processNextMessage eng t))) (messageQueueRef s @ input)"
      using sub by (simp add: after(2))
    show "mset ([m] @ messageQueueRef (snd (processNextMessage eng t)))
        + mset (discarded (snd (processNextMessage eng t)))
        = mset (messageQueueRef s @ input) + mset (discarded s)"
      using ms by (simp add: after(2) processNextMessage_frame)
    show "\<not> processingRef (snd (processNextMessage eng t))"
      by (simp add: after(3))
    show "messageQueueRef (snd (processNextMessage eng t)) \<noteq> [] \<longrightarrow>
        0 < timers (snd (processNextMessage eng t))"
      by (simp add: after(2,4))
    show "sockets (snd (processNextMessage eng t)) = sockets s"
      using assms(4) by (simp add: processNextMessage_frame)
  qed
qed

lemma carried_queueMessage:
  assumes book: "bookRef s = Some b" and idle: "\<not> processingRef s"
  shows "carried s (snd (queueMessage eng d s)) [d]"
proof -
  obtain m rest where q: "messageQueueRef (push_bounded d s) = m # rest"
    using push_bounded_nonempty [of d s] by (cases "messageQueueRef (push_bounded d s)") auto
  show ?thesis
    unfolding queueMessage_def
  proof (rule carried_active [OF _ q])
    show "\<not> processingRef (push_bounded d s)" "bookRef (push_bounded d s) = Some b"
      using assms by (simp_all add: push_bounded_keeps)
    show "sockets (push_bounded d s) = sockets s"
      by (simp add: push_bounded_frame)
    show "bookRef s = Some b" by fact
    show "subseq (m # rest) (messageQueueRef s @ [d])"
      using push_bounded_subseq [of d s] unfolding q .
    show "mset (m # rest) + mset (discarded (push_bounded d s))
        = mset (messageQueueRef s @ [d]) + mset (discarded s)"
      using push_bounded_split [of d s] unfolding q .
  qed
qed

lemma carried_Tick:
  assumes book: "bookRef s = Some b" and idle: "\<not> processingRef s"
    and sched: "messageQueueRef s \<noteq> [] \<longrightarrow> 0 < timers s"
  shows "carried s (step eng s Tick) []"
proof (cases "timers s = 0")
  case True
  then show ?thesis
    using assms by (simp add: step_def carried_refl)
next
  case False
  let ?t = "s\<lparr>timers := timers s - 1\<rparr>"
  show ?thesis
  proof (cases "messageQueueRef s")
    case Nil
    then have "processNextMessage eng ?t = (None, ?t)"
      by (intro processNextMessage_idle) simp
    moreover have "carried s ?t []"
      unfolding carried_def using assms Nil
      by (intro conjI exI [of _ b] exI [of _ "[]"]) simp_all
    ultimately show ?thesis
      using False by (simp add: step_def)
  next
    case (Cons m rest)
    have "carried s (snd (processNextMessage eng ?t)) []"
    proof (rule carried_active [where m = m and rest = rest and b = b])
      show "\<not> processingRef ?t" "messageQueueRef ?t = m # rest" "bookRef ?t = Some b"
        "sockets ?t = sockets s" "bookRef s = Some b"
        using assms Cons by simp_all
      show "subseq (m # rest) (messageQueueRef s @ [])"
        using Cons by simp
      show "mset (m # rest) + mset (discarded ?t) = mset (messageQueueRef s @ []) + mset (discarded s)"
        using Cons by simp
    qed
    then show ?thesis
      using False by (simp add: step_def)
  qed
qed

lemma carried_trans:
  assumes "carried s s1 i1" "carried s1 s2 i2"
  shows "carried s s2 (i1 @ i2)"
proof -
  obtain b new1 where 1: "bookRef s = Some b"
    "bookRef s1 = Some (b\<lparr>received := received b @ new1\<rparr>)"
    "subseq (new1 @ messageQueueRef s1) (messageQueueRef s @ i1)"
    "mset (new1 @ messageQueueRef s1) + mset (discarded s1)
       = mset (messageQueueRef s @ i1) + mset (discarded s)"
    using assms(1) unfolding carried_def by blast
  obtain b1 new2 where 2: "bookRef s1 = Some b1"
    "bookRef s2 = Some (b1\<lparr>received := received b1 @ new2\<rparr>)"
    "subseq (new2 @ messageQueueRef s2) (messageQueueRef s1 @ i2)"
    "mset (new2 @ messageQueueRef s2) + mset (discarded s2)
       = mset (messageQueueRef s1 @ i2) + mset (discarded s1)"
    using assms(2) unfolding carried_def by blast
  have rest: "\<not> processingRef s2" "messageQueueRef s2 \<noteq> [] \<longrightarrow> 0 < timers s2"
    "sockets s2 = sockets s"
    using assms unfolding carried_def by simp_all
  have b1: "b1 = b\<lparr>received := received b @ new1\<rparr>"
    using 1(2) 2(1) by simp
  have "subseq (new1 @ (new2 @ messageQueueRef s2)) (new1 @ (messageQueueRef s1 @ i2))"
    using 2(3) by (simp only: subseq_append')
  moreover have "subseq ((new1 @ messageQueueRef s1) @ i2) ((messageQueueRef s @ i1) @ i2)"
    using list_emb_append_mono [OF 1(3), of i2 i2] by simp
  ultimately have sub: "subseq ((new1 @ new2) @ messageQueueRef s2) (messageQueueRef s @ i1 @ i2)"
    using subseq_order.order_trans by fastforce
  have A: "mset new1 + mset (messageQueueRef s1) + mset (discarded s1)
      = mset (messageQueueRef s) + mset i1 + mset (discarded s)"
    using 1(4) by simp
  have B: "mset new2 + mset (messageQueueRef s2) + mset (discarded s2)
      = mset (messageQueueRef s1) + mset i2 + mset (discarded s1)"
    using 2(4) by simp
  have "mset new1 + (mset new2 + mset (messageQueueRef s2) + mset (discarded s2))
      = mset new1 + (mset (messageQueueRef s1) + mset i2 + mset (discarded s1))"
    by (simp only: B)
  also have "\<dots> = (mset new1 + mset (messageQueueRef s1) + mset (discarded s1)) + mset i2"
    by (simp add: ac_simps)
  also have "\<dots> = (mset (messageQueueRef s) + mset i1 + mset (discarded s)) + mset i2"
    by (simp only: A)
  finally have ms: "mset ((new1 @ new2) @ messageQueueRef s2) + mset (discarded s2)
      = mset (messageQueueRef s @ i1 @ i2) + mset (discarded s)"
    by (simp add: ac_simps)
  show ?thesis
    unfolding carried_def
  proof (intro conjI exI [of _ b] exI [of _ "new1 @ new2"])
    show "bookRef s2 = Some (b\<lparr>received := received b @ new1 @ new2\<rparr>)"
      using 2(2) b1 by simp
  qed (use 1(1) sub ms rest in simp_all)
qed

lemma enqueued_Cons:
  "enqueued (Tick # evs) = enqueued evs"
  "enqueued (WsMessage w d # evs) = \<lparr>origin = w, payload = d\<rparr> # enqueued evs"
  by simp_all

lemma carried_run:
  assumes "session_traffic w evs" "w < length (sockets s)" "mounted (sockets s ! w)"
    and "bookRef s = Some b" "\<not> processingRef s" "messageQueueRef s \<noteq> [] \<longrightarrow> 0 < timers s"
  shows "carried s (run eng s evs) (enqueued evs)"
  using assms
proof (induction evs arbitrary: s b)
  case Nil
  then show ?case
    by (simp add: carried_refl)
next
  case (Cons ev evs)
  have ev: "ev = Tick \<or> (\<exists>d. ev = WsMessage w d)" and evs: "session_traffic w evs"
    using Cons.prems(1) by (simp_all add: session_traffic_def)
  have first: "carried s (step eng s ev) (enqueued [ev])"
  proof -
    have "carried s (step eng s (WsMessage w d)) [\<lparr>origin = w, payload = d\<rparr>]" for d
      using carried_queueMessage [OF Cons.prems(4,5), of eng "\<lparr>origin = w, payload = d\<rparr>"]
        Cons.prems(2,3)
      by (simp add: step_def ws_onmessage_def)
    moreover have "carried s (step eng s Tick) []"
      using Cons.prems(4,5,6) by (rule carried_Tick)
    ultimately show ?thesis
      using ev by auto
  qed
  then obtain b1 where s1: "bookRef (step eng s ev) = Some b1" "\<not> processingRef (step eng s ev)"
    "messageQueueRef (step eng s ev) \<noteq> [] \<longrightarrow> 0 < timers (step eng s ev)"
    "sockets (step eng s ev) = sockets s"
    unfolding carried_def by blast
  have "carried (step eng s ev) (run eng (step eng s ev) evs) (enqueued evs)"
    using evs Cons.prems(2,3) s1 by (intro Cons.IH [of "step eng s ev" b1]) simp_all
  then have "carried s (run eng (step eng s ev) evs) (enqueued [ev] @ enqueued evs)"
    using first by (rule carried_trans [rotated])
  moreover have "enqueued [ev] @ enqueued evs = enqueued (ev # evs)"
    using ev by auto
  ultimately show ?case
    by simp
qed

lemma drain_all:
  assumes "bookRef s = Some b" "\<not> processingRef s" "messageQueueRef s \<noteq> [] \<longrightarrow> 0 < timers s"
  shows "bookRef (run eng s (replicate (length (messageQueueRef s)) Tick))
           = Some (b\<lparr>received := received b @ messageQueueRef s\<rparr>)
         \<and> messageQueueRef (run eng s (replicate (length (messageQueueRef s)) Tick)) = []"
  using assms
proof (induction "messageQueueRef s" arbitrary: s b)
  case Nil
  then show ?case
    by simp
next
  case (Cons m rest)
  let ?t = "s\<lparr>timers := timers s - 1\<rparr>"
  have q: "messageQueueRef s = m # rest"
    using Cons.hyps(2) by simp
  have act: "\<not> processingRef ?t" "messageQueueRef ?t = m # rest" "bookRef ?t = Some b"
    using Cons.prems q by simp_all
  note after = processNextMessage_active [OF act, of eng]
  have step: "step eng s Tick = snd (processNextMessage eng ?t)"
    using Cons.prems(3) q by (simp add: step_def)
  have "bookRef (run eng (step eng s Tick) (replicate (length (messageQueueRef (step eng s Tick))) Tick))
      = Some (b\<lparr>received := received b @ [m]\<rparr>\<lparr>received :=
          received (b\<lparr>received := received b @ [m]\<rparr>) @ messageQueueRef (step eng s Tick)\<rparr>)
    \<and> messageQueueRef (run eng (step eng s Tick)
        (replicate (length (messageQueueRef (step eng s Tick))) Tick)) = []"
  proof (rule Cons.hyps(1))
    show "rest = messageQueueRef (step eng s Tick)"
      unfolding step by (rule after(2) [symmetric])
    show "bookRef (step eng s Tick) = Some (b\<lparr>received := received b @ [m]\<rparr>)"
      unfolding step by (rule after(1))
    show "\<not> processingRef (step eng s Tick)"
      unfolding step using after(3) by simp
    show "messageQueueRef (step eng s Tick) \<noteq> [] \<longrightarrow> 0 < timers (step eng s Tick)"
      unfolding step using after(2,4) by simp
  qed
  moreover have "messageQueueRef (step eng s Tick) = rest"
    unfolding step by (rule after(2))
  ultimately show ?case
    using q by simp
qed

lemma step_at_most_one:
  assumes "bookRef s = Some b" "ev = Tick \<or> (\<exists>d. ev = WsMessage w d)"
  shows "\<exists>new. length new \<le> 1
    \<and> bookRef (step eng s ev) = Some (b\<lparr>received := received b @ new\<rparr>)"
proof -
  have idle: "\<exists>new. length new \<le> 1 \<and> bookRef s = Some (b\<lparr>received := received b @ new\<rparr>)"
    using assms(1) by (intro exI [of _ "[]"]) simp
  have tick: "\<exists>new. length new \<le> 1
      \<and> bookRef (step eng s Tick) = Some (b\<lparr>received := received b @ new\<rparr>)"
    using idle processNextMessage_at_most_one [of "s\<lparr>timers := timers s - 1\<rparr>" b eng] assms(1)
    by (simp add: step_def)
  have msg: "\<exists>new. length new \<le> 1
      \<and> bookRef (step eng s (WsMessage w d)) = Some (b\<lparr>received := received b @ new\<rparr>)" for d
    using idle assms(1)
      processNextMessage_at_most_one [of "push_bounded \<lparr>origin = w, payload = d\<rparr> s" b eng]
    by (simp add: step_def ws_onmessage_def queueMessage_def push_bounded_keeps)
  show ?thesis
    using assms(2) tick msg by blast
qed

lemma fresh_session_run:
  assumes "session_traffic w evs" "w < length (sockets s)" "mounted (sockets s ! w)"
    and "bookRef s = Some b" "\<not> processingRef s" "messageQueueRef s = []"
  shows "bookRef (run eng s evs) = Some (b\<lparr>received := received b @ enqueued evs\<rparr>)
    \<and> messageQueueRef (run eng s evs) = []
    \<and> discarded (run eng s evs) = discarded s"
  using assms
proof (induction evs arbitrary: s b)
  case Nil
  then show ?case by simp
next
  case (Cons ev evs)
  have ev: "ev = Tick \<or> (\<exists>d. ev = WsMessage w d)" and evs: "session_traffic w evs"
    using Cons.prems(1) by (simp_all add: session_traffic_def)
  from ev show ?case
  proof
    assume tick: "ev = Tick"
    have "processNextMessage eng (s\<lparr>timers := timers s - 1\<rparr>) = (None, s\<lparr>timers := timers s - 1\<rparr>)"
      using Cons.prems(6) by (intro processNextMessage_idle) simp
    then have same: "bookRef (step eng s Tick) = Some b" "\<not> processingRef (step eng s Tick)"
      "messageQueueRef (step eng s Tick) = []" "sockets (step eng s Tick) = sockets s"
      "discarded (step eng s Tick) = discarded s"
      using Cons.prems by (simp_all add: step_def)
    show ?thesis
      using Cons.IH [of "step eng s Tick" b] evs Cons.prems(2,3) same tick by simp
  next
    assume "\<exists>d. ev = WsMessage w d"
    then obtain d where d: "ev = WsMessage w d" ..
    define m where "m = \<lparr>origin = w, payload = d\<rparr>"
    have step: "step eng s ev = snd (queueMessage eng m s)"
      using Cons.prems(2,3) d by (simp add: step_def ws_onmessage_def m_def)
    note after = queueMessage_fresh [OF Cons.prems(4,5,6), of eng m]
    have "bookRef (run eng (step eng s ev) evs)
        = Some (b\<lparr>received := received b @ [m]\<rparr>\<lparr>received :=
            received (b\<lparr>received := received b @ [m]\<rparr>) @ enqueued evs\<rparr>)
      \<and> messageQueueRef (run eng (step eng s ev) evs) = []
      \<and> discarded (run eng (step eng s ev) evs) = discarded (step eng s ev)"
      using evs Cons.prems(2,3) after unfolding step by (intro Cons.IH) simp_all
    then show ?thesis
      using d after(3) step by (simp add: m_def)
  qed
qed

section \<open>Order of processing\<close>

text \<open>
  C1. Take a session with a live socket and a handle, no message in flight, and a drain
  scheduled if messages are pending, and let any sequence of messages of that socket and of
  timers follow. Then the messages handed to the engine since, followed by those still
  pending, are a subsequence of the messages pending at the start followed by the enqueued
  ones, in that order; together with the messages the overflow truncation discarded they
  are exactly those messages; no message is in flight when an event has been handled, and
  no event hands more than one message to the engine; and letting the timers fire hands
  every pending message to the engine, in order. If the queue was empty at the start, as
  the connect effect leaves it, the engine is handed exactly the enqueued messages in
  their order and nothing is discarded.
\<close>

theorem engine_sees_fifo:
  assumes "session_traffic w evs"
    and "w < length (sockets s)" and "mounted (sockets s ! w)"
    and "bookRef s = Some b" and "\<not> processingRef s"
    and "messageQueueRef s \<noteq> [] \<longrightarrow> 0 < timers s"
  shows "\<exists>new.
      bookRef (run eng s evs) = Some (b\<lparr>received := received b @ new\<rparr>)
    \<and> subseq (new @ messageQueueRef (run eng s evs)) (messageQueueRef s @ enqueued evs)
    \<and> mset (new @ messageQueueRef (run eng s evs)) + mset (discarded (run eng s evs))
        = mset (messageQueueRef s @ enqueued evs) + mset (discarded s)
    \<and> \<not> processingRef (run eng s evs)
    \<and> bookRef (run eng (run eng s evs)
          (replicate (length (messageQueueRef (run eng s evs))) Tick))
        = Some (b\<lparr>received := received b @ new @ messageQueueRef (run eng s evs)\<rparr>)
    \<and> (\<forall>ev. ev = Tick \<or> (\<exists>d. ev = WsMessage w d) \<longrightarrow>
          (\<exists>next. length next \<le> 1
             \<and> bookRef (step eng (run eng s evs) ev)
                 = Some (b\<lparr>received := received b @ new @ next\<rparr>)))
    \<and> (messageQueueRef s = [] \<longrightarrow>
          new = enqueued evs \<and> messageQueueRef (run eng s evs) = []
          \<and> discarded (run eng s evs) = discarded s)"
proof -
  let ?s = "run eng s evs"
  have "carried s ?s (enqueued evs)"
    using assms by (rule carried_run)
  then obtain new where new: "bookRef ?s = Some (b\<lparr>received := received b @ new\<rparr>)"
    "subseq (new @ messageQueueRef ?s) (messageQueueRef s @ enqueued evs)"
    "mset (new @ messageQueueRef ?s) + mset (discarded ?s)
       = mset (messageQueueRef s @ enqueued evs) + mset (discarded s)"
    and idle: "\<not> processingRef ?s" "messageQueueRef ?s \<noteq> [] \<longrightarrow> 0 < timers ?s"
    using assms(4) unfolding carried_def by auto
  have drained: "bookRef (run eng ?s (replicate (length (messageQueueRef ?s)) Tick))
      = Some (b\<lparr>received := received b @ new @ messageQueueRef ?s\<rparr>)"
    using drain_all [OF new(1) idle, of eng] by simp
  have one: "\<exists>next. length next \<le> 1
      \<and> bookRef (step eng ?s ev) = Some (b\<lparr>received := received b @ new @ next\<rparr>)"
    if "ev = Tick \<or> (\<exists>d. ev = WsMessage w d)" for ev
    using step_at_most_one [OF new(1) that, of eng] by simp
  have fresh: "new = enqueued evs \<and> messageQueueRef ?s = [] \<and> discarded ?s = discarded s"
    if empty: "messageQueueRef s = []"
  proof -
    note all = fresh_session_run [OF assms(1,2,3,4,5) empty, of eng]
    then have "received (b\<lparr>received := received b @ new\<rparr>)
        = received (b\<lparr>received := received b @ enqueued evs\<rparr>)"
      using new(1) by simp
    then show ?thesis
      using all by simp
  qed
  show ?thesis
    using new idle(1) drained one fresh by blast
qed

theorem engine_sees_fifo_witness:
  "map_option (map payload \<circ> received)
     (bookRef (run scripted_engine (step scripted_engine init_world SdkReady) session_trace))
     = Some [''snapshot'', ''corrupt'', ''update'']
   \<and> map payload (enqueued session_trace) = [''snapshot'', ''corrupt'', ''update'']
   \<and> messageQueueRef (run scripted_engine (step scripted_engine init_world SdkReady)
        session_trace) = []
   \<and> discarded (run scripted_engine (step scripted_engine init_world SdkReady)
        session_trace) = []"
proof -
  have facts: "bookRef (step scripted_engine init_world SdkReady) = Some (fresh_book ''BTC/USD'')"
    "sockets (step scripted_engine init_world SdkReady)
      = [\<lparr>sock_symbol = ''BTC/USD'', mounted = True, sent = [], close_calls = 0\<rparr>]"
    "processingRef (step scripted_engine init_world SdkReady) = False"
    "messageQueueRef (step scripted_engine init_world SdkReady) = []"
    "discarded (step scripted_engine init_world SdkReady) = []"
    by (simp_all add: run_defs)
  have traffic: "session_traffic 0 session_trace"
    by (simp add: session_traffic_def session_trace_def)
  have enq: "enqueued session_trace
      = [\<lparr>origin = 0, payload = ''snapshot''\<rparr>, \<lparr>origin = 0, payload = ''corrupt''\<rparr>,
         \<lparr>origin = 0, payload = ''update''\<rparr>]"
    by (simp add: session_trace_def)
  show ?thesis
    using engine_sees_fifo [OF traffic, of "step scripted_engine init_world SdkReady"
        "fresh_book ''BTC/USD''" scripted_engine]
    by (auto simp: facts enq)
qed

section \<open>The bounded queue\<close>



section \<open>State after a switch\<close>

text \<open>
  C3. Selecting another instrument never changes the connection flag. With the first socket
  open and a snapshot published, selecting \<open>ETH/USD\<close> leaves bids and asks empty,
  spread and mid price undefined, validity true, the update counter 0 and the queue empty,
  but the connection flag still true, although nothing has been sent on the new socket.
\<close>

theorem switch_keeps_connected:
  "connected_flag (step eng s (Select x)) = connected_flag s
   \<and> connected_flag (run scripted_engine init_world switch_trace) = True
   \<and> symbol (run scripted_engine init_world switch_trace) = ''ETH/USD''
   \<and> map sent (sockets (run scripted_engine init_world switch_trace)) = [[
        \<lparr>req_method = ''subscribe'',
          params = \<lparr>channel = ''book'', params_symbol = [''BTC/USD''], depth = 25\<rparr>\<rparr>], []]
   \<and> bids (run scripted_engine init_world switch_trace) = []
   \<and> asks (run scripted_engine init_world switch_trace) = []
   \<and> spread (run scripted_engine init_world switch_trace) = None
   \<and> midPrice (run scripted_engine init_world switch_trace) = None
   \<and> checksumValid (run scripted_engine init_world switch_trace) = True
   \<and> updateCount (run scripted_engine init_world switch_trace) = 0
   \<and> messageQueueRef (run scripted_engine init_world switch_trace) = []"
proof -
  have "connected_flag (step eng s (Select x)) = connected_flag s"
    unfolding step_def handle_Select_eq
    by (simp add: rerun_connect_effect_def connect_effect_frame run_cleanup_frame2)
  then show ?thesis
    by (simp add: switch_trace_def run_defs scripted_engine_def snapshot_result_def)
qed

section \<open>Integrity failures\<close>

text \<open>
  C4. Take any state the component reaches, with a live socket and its handle, and let that
  socket deliver a message that the engine answers with an error whose message includes
  \<open>Checksum\<close>. The handler returns normally; validity is false; bids, asks, spread, mid
  price, the update counter and the publications are as before; the message is logged on
  the handle, and no message is pending or in flight. When the socket then delivers a
  message that the engine answers with an update, the handler returns normally, that
  update's book is published, the counter is one more than before the failure, validity is
  true again, and the handle has received both messages, in order.
\<close>

theorem checksum_failure_nonfatal:
  assumes s: "s = run eng init_world evs"
    and w: "w < length (sockets s)" and live: "mounted (sockets s ! w)"
    and book: "bookRef s = Some b"
    and fails: "apply_and_get eng b k 10 = Throws (ThrownValue (Some e))"
    and checksum: "str_includes e ''Checksum''"
    and valid: "apply_and_get eng (b\<lparr>received := received b @ [\<lparr>origin = w, payload = k\<rparr>]\<rparr>)
                  k' 10 = Returns (Some r)"
    and update: "msg_type r = ''update''"
  shows "fst (handle eng s (WsMessage w k)) = None
    \<and> checksumValid (step eng s (WsMessage w k)) = False
    \<and> bids (step eng s (WsMessage w k)) = bids s
    \<and> asks (step eng s (WsMessage w k)) = asks s
    \<and> spread (step eng s (WsMessage w k)) = spread s
    \<and> midPrice (step eng s (WsMessage w k)) = midPrice s
    \<and> updateCount (step eng s (WsMessage w k)) = updateCount s
    \<and> published (step eng s (WsMessage w k)) = published s
    \<and> bookRef (step eng s (WsMessage w k))
         = Some (b\<lparr>received := received b @ [\<lparr>origin = w, payload = k\<rparr>]\<rparr>)
    \<and> messageQueueRef (step eng s (WsMessage w k)) = []
    \<and> \<not> processingRef (step eng s (WsMessage w k))
    \<and> fst (handle eng (step eng s (WsMessage w k)) (WsMessage w k')) = None
    \<and> bids (step eng (step eng s (WsMessage w k)) (WsMessage w k'))
         = map (\<lambda>l. (price l, qty l)) (result_bids r)
    \<and> asks (step eng (step eng s (WsMessage w k)) (WsMessage w k'))
         = map (\<lambda>l. (price l, qty l)) (result_asks r)
    \<and> spread (step eng (step eng s (WsMessage w k)) (WsMessage w k')) = result_spread r
    \<and> midPrice (step eng (step eng s (WsMessage w k)) (WsMessage w k')) = result_mid_price r
    \<and> updateCount (step eng (step eng s (WsMessage w k)) (WsMessage w k')) = updateCount s + 1
    \<and> checksumValid (step eng (step eng s (WsMessage w k)) (WsMessage w k')) = True
    \<and> published (step eng (step eng s (WsMessage w k)) (WsMessage w k'))
         = published s @ [(Some w, \<lparr>origin = w, payload = k'\<rparr>)]
    \<and> bookRef (step eng (step eng s (WsMessage w k)) (WsMessage w k'))
         = Some (b\<lparr>received := received b
                   @ [\<lparr>origin = w, payload = k\<rparr>, \<lparr>origin = w, payload = k'\<rparr>]\<rparr>)
    \<and> messageQueueRef (step eng (step eng s (WsMessage w k)) (WsMessage w k')) = []
    \<and> \<not> processingRef (step eng (step eng s (WsMessage w k)) (WsMessage w k'))"
proof -
  define K where "K = \<lparr>origin = w, payload = k\<rparr>"
  define K' where "K' = \<lparr>origin = w, payload = k'\<rparr>"
  have inv: "session_inv s" "idle_inv s"
    unfolding s using reachable_invariants [of eng evs] by simp_all
  have idle: "\<not> processingRef s" "messageQueueRef s = []"
    using inv(2) by (simp_all add: idle_inv_def)
  have "cleanup s = Some w"
    using session_inv_single [OF inv(1) w live] .
  then have cur: "wsRef s = Some w"
    using inv(1) unfolding session_inv_def by blast
  define s1 where "s1 = s\<lparr>checksumValid := False,
      bookRef := Some (b\<lparr>received := received b @ [K]\<rparr>),
      messageQueueRef := [], processingRef := False\<rparr>"
  define s2 where "s2 = s1\<lparr>bids := map (\<lambda>l. (price l, qty l)) (result_bids r),
      asks := map (\<lambda>l. (price l, qty l)) (result_asks r),
      spread := result_spread r, midPrice := result_mid_price r,
      updateCount := updateCount s + 1, checksumValid := True,
      bookRef := Some (b\<lparr>received := received b @ [K, K']\<rparr>),
      messageQueueRef := [], processingRef := False,
      published := published s @ [(Some w, K')]\<rparr>"
  have "processNextMessage eng (s\<lparr>messageQueueRef := [K]\<rparr>) =
      (None, s\<lparr>messageQueueRef := [K]\<rparr>\<lparr>checksumValid := False,
         bookRef := Some (b\<lparr>received := received b @ [K]\<rparr>),
         messageQueueRef := [], processingRef := False,
         timers := (if [] = ([] :: message list) then timers (s\<lparr>messageQueueRef := [K]\<rparr>)
                    else timers (s\<lparr>messageQueueRef := [K]\<rparr>) + 1)\<rparr>)"
    by (rule processNextMessage_checksum [where e = e])
      (use idle book fails checksum in \<open>simp_all add: K_def\<close>)
  then have "processNextMessage eng (s\<lparr>messageQueueRef := [K]\<rparr>) = (None, s1)"
    by (simp add: s1_def)
  then have first: "handle eng s (WsMessage w k) = (None, s1)"
    using w live idle by (simp add: ws_onmessage_def queueMessage_def push_bounded_def K_def)
  have fields: "sockets s1 = sockets s" "\<not> processingRef s1" "messageQueueRef s1 = []"
    "bookRef s1 = Some (b\<lparr>received := received b @ [K]\<rparr>)" "wsRef s1 = Some w"
    "updateCount s1 = updateCount s" "published s1 = published s"
    using cur by (simp_all add: s1_def)
  have "processNextMessage eng (s1\<lparr>messageQueueRef := [K']\<rparr>) =
      (None, s1\<lparr>messageQueueRef := [K']\<rparr>\<lparr>bids := map (\<lambda>l. (price l, qty l)) (result_bids r),
         asks := map (\<lambda>l. (price l, qty l)) (result_asks r),
         spread := result_spread r, midPrice := result_mid_price r,
         updateCount := updateCount (s1\<lparr>messageQueueRef := [K']\<rparr>) + 1, checksumValid := True,
         bookRef := Some (b\<lparr>received := received b @ [K]\<rparr>\<lparr>received :=
            received (b\<lparr>received := received b @ [K]\<rparr>) @ [K']\<rparr>),
         messageQueueRef := [], processingRef := False,
         timers := (if [] = ([] :: message list) then timers (s1\<lparr>messageQueueRef := [K']\<rparr>)
                    else timers (s1\<lparr>messageQueueRef := [K']\<rparr>) + 1),
         published := published (s1\<lparr>messageQueueRef := [K']\<rparr>)
            @ [(wsRef (s1\<lparr>messageQueueRef := [K']\<rparr>), K')]\<rparr>)"
    by (rule processNextMessage_recognised)
      (use fields valid update in \<open>simp_all add: K_def K'_def\<close>)
  then have "processNextMessage eng (s1\<lparr>messageQueueRef := [K']\<rparr>) = (None, s2)"
    by (simp add: s2_def fields)
  then have second: "handle eng s1 (WsMessage w k') = (None, s2)"
    using w live fields
    by (simp add: ws_onmessage_def queueMessage_def push_bounded_def K'_def)
  show ?thesis
    unfolding step_def first second snd_conv fst_conv
    by (simp add: s1_def s2_def K_def K'_def)
qed

theorem checksum_failure_nonfatal_witness:
  "mounted (sockets (run scripted_engine init_world snapshot_trace) ! 0)
   \<and> map_option (map payload \<circ> received)
        (bookRef (run scripted_engine init_world snapshot_trace)) = Some [''snapshot'']
   \<and> bids (run scripted_engine init_world snapshot_trace) = [(100, 2), (199 / 2, 1)]
   \<and> str_includes ''Checksum mismatch'' ''Checksum''
   \<and> checksumValid (step scripted_engine (run scripted_engine init_world snapshot_trace)
        (WsMessage 0 ''corrupt'')) = False
   \<and> bids (step scripted_engine (run scripted_engine init_world snapshot_trace)
        (WsMessage 0 ''corrupt'')) = [(100, 2), (199 / 2, 1)]
   \<and> bids (step scripted_engine
        (step scripted_engine (run scripted_engine init_world snapshot_trace)
           (WsMessage 0 ''corrupt''))
        (WsMessage 0 ''update'')) = [(401 / 4, 1), (100, 2)]
   \<and> checksumValid (step scripted_engine
        (step scripted_engine (run scripted_engine init_world snapshot_trace)
           (WsMessage 0 ''corrupt''))
        (WsMessage 0 ''update'')) = True
   \<and> updateCount (step scripted_engine
        (step scripted_engine (run scripted_engine init_world snapshot_trace)
           (WsMessage 0 ''corrupt''))
        (WsMessage 0 ''update'')) = 2"
proof -
  have inc: "str_includes ''Checksum mismatch'' ''Checksum''"
    unfolding str_includes_def by code_simp
  have facts: "sockets (run scripted_engine init_world snapshot_trace)
      = [\<lparr>sock_symbol = ''BTC/USD'', mounted = True,
          sent = [\<lparr>req_method = ''subscribe'',
                   params = \<lparr>channel = ''book'', params_symbol = [''BTC/USD''],
                             depth = 25\<rparr>\<rparr>],
          close_calls = 0\<rparr>]"
    "bookRef (run scripted_engine init_world snapshot_trace)
      = Some ((fresh_book ''BTC/USD'')\<lparr>received := [\<lparr>origin = 0, payload = ''snapshot''\<rparr>]\<rparr>)"
    "bids (run scripted_engine init_world snapshot_trace) = [(100, 2), (199 / 2, 1)]"
    "updateCount (run scripted_engine init_world snapshot_trace) = 1"
    by (simp_all add: snapshot_trace_def run_defs scripted_engine_def snapshot_result_def)
  have answers: "apply_and_get scripted_engine b ''corrupt'' n
      = Throws (ThrownValue (Some ''Checksum mismatch''))"
    "apply_and_get scripted_engine b ''update'' n = Returns (Some update_result)" for b n
    by (simp_all add: scripted_engine_def)
  have result: "msg_type update_result = ''update''"
    "map (\<lambda>l. (price l, qty l)) (result_bids update_result) = [(401 / 4, 1), (100, 2)]"
    by (simp_all add: update_result_def)
  show ?thesis
    using checksum_failure_nonfatal
      [where s = "run scripted_engine init_world snapshot_trace" and eng = scripted_engine
        and evs = snapshot_trace and w = 0 and k = "''corrupt''" and k' = "''update''"
        and e = "''Checksum mismatch''" and r = update_result
        and b = "(fresh_book ''BTC/USD'')\<lparr>received := [\<lparr>origin = 0, payload = ''snapshot''\<rparr>]\<rparr>",
        OF refl]
      inc
    by (simp add: facts answers result)
qed

section \<open>Superseded sessions\<close>

text \<open>
  C5. After any events, with any number of switches in any succession and with late events
  of earlier sockets in between: at most one session is live (the closures of at most one
  socket are still mounted, and that socket is the current one), and a ready, mounted
  component has one; a message delivered by a socket that is no longer live changes
  nothing; every message that is queued, that the current handle has received, or whose
  result was published was delivered by the socket that was current at that moment (for a
  queued or received message: that is current now). A switch calls
  \<open>free\<close> on the previous handle and empties the queue before the new handle, which has
  received nothing yet, is installed, and it leaves no earlier socket live.
\<close>

theorem superseded_sessions_silent:
  assumes s: "s = run eng init_world evs"
  shows "(\<forall>w < length (sockets s). mounted (sockets s ! w) \<longrightarrow> wsRef s = Some w)
    \<and> (alive s \<and> sdkReady s \<longrightarrow> (\<exists>w < length (sockets s). mounted (sockets s ! w)))
    \<and> (\<forall>w < length (sockets s). \<not> mounted (sockets s ! w) \<longrightarrow>
          (\<forall>d. step eng s (WsMessage w d) = s))
    \<and> (\<forall>d \<in> set (messageQueueRef s). wsRef s = Some (origin d))
    \<and> (\<forall>b. bookRef s = Some b \<longrightarrow> (\<forall>d \<in> set (received b). wsRef s = Some (origin d)))
    \<and> (\<forall>(cur, d) \<in> set (published s). cur = Some (origin d))
    \<and> (\<forall>x \<in> set SYMBOLS. alive s \<and> sdkReady s \<and> x \<noteq> symbol s \<longrightarrow>
          (\<exists>b. bookRef s = Some b
             \<and> b\<lparr>free_calls := free_calls b + 1\<rparr> \<in> set (released (step eng s (Select x))))
          \<and> messageQueueRef (step eng s (Select x)) = []
          \<and> (\<exists>b'. bookRef (step eng s (Select x)) = Some b' \<and> received b' = []
                \<and> free_calls b' = 0)
          \<and> (\<forall>w < length (sockets s). \<not> mounted (sockets (step eng s (Select x)) ! w)))"
proof -
  have sinv: "session_inv s" and linv: "origin_inv s"
    using invariants_run [OF session_inv_init origin_inv_init, of eng evs] s by simp_all
  have one: "wsRef s = Some w" if "w < length (sockets s)" "mounted (sockets s ! w)" for w
    using sinv session_inv_single [OF sinv that] unfolding session_inv_def by blast
  have live: "\<exists>w < length (sockets s). mounted (sockets s ! w)" if "alive s \<and> sdkReady s"
    using sinv that unfolding session_inv_def by blast
  have switch: "(\<exists>b. bookRef s = Some b
             \<and> b\<lparr>free_calls := free_calls b + 1\<rparr> \<in> set (released (step eng s (Select x))))
          \<and> messageQueueRef (step eng s (Select x)) = []
          \<and> (\<exists>b'. bookRef (step eng s (Select x)) = Some b' \<and> received b' = []
                \<and> free_calls b' = 0)
          \<and> (\<forall>w < length (sockets s). \<not> mounted (sockets (step eng s (Select x)) ! w))"
    if x: "x \<in> set SYMBOLS" "alive s \<and> sdkReady s \<and> x \<noteq> symbol s" for x
  proof -
    let ?t = "run_cleanup (s\<lparr>symbol := x\<rparr>)"
    have ready: "sdkReady ?t"
      using x by (simp add: run_cleanup_frame)
    have plain: "symbol ?t \<notin> set Object_prototype"
      using x by (simp add: run_cleanup_frame listed_not_inherited)
    have eq: "step eng s (Select x) = snd (connect_effect eng ?t)"
      using sinv x by (simp add: step_Select_eq)
    obtain b where b: "bookRef s = Some b"
      using sinv x unfolding session_inv_def by blast
    have quiet: "\<not> mounted (sockets ?t ! w)" if "w < length (sockets s)" for w
      using session_inv_single [OF sinv] that by (intro run_cleanup_unmounts) auto
    show ?thesis
      unfolding eq connect_effect_eq [OF ready plain]
      using b quiet
      by (simp add: run_cleanup_frame run_cleanup_frame2 fresh_book_def nth_append nth_closed)
  qed
  show ?thesis
    using one live switch origin_invD [OF linv] step_superseded(1) [of _ s eng]
    by (intro conjI ballI allI impI) (blast | force)+
qed

lemma double_switch_facts:
  "wsRef (run scripted_engine init_world double_switch_trace) = Some 2"
  "map mounted (sockets (run scripted_engine init_world double_switch_trace)) = [False, False, True]"
  "published (run scripted_engine init_world double_switch_trace)
     = [(Some 0, \<lparr>origin = 0, payload = ''snapshot''\<rparr>),
        (Some 2, \<lparr>origin = 2, payload = ''update''\<rparr>)]"
  "alive (run scripted_engine init_world double_switch_trace)"
  "sdkReady (run scripted_engine init_world double_switch_trace)"
  by (simp_all add: double_switch_trace_def run_defs scripted_engine_def snapshot_result_def
      update_result_def)

theorem superseded_sessions_silent_witness:
  "wsRef (run scripted_engine init_world double_switch_trace) = Some 2
   \<and> map mounted (sockets (run scripted_engine init_world double_switch_trace))
       = [False, False, True]
   \<and> published (run scripted_engine init_world double_switch_trace)
       = [(Some 0, \<lparr>origin = 0, payload = ''snapshot''\<rparr>),
          (Some 2, \<lparr>origin = 2, payload = ''update''\<rparr>)]
   \<and> alive (run scripted_engine init_world double_switch_trace)
   \<and> sdkReady (run scripted_engine init_world double_switch_trace)"
  using superseded_sessions_silent [OF refl, of scripted_engine double_switch_trace]
  by (simp add: double_switch_facts)

section \<open>Spread and mid price\<close>

text \<open>
  C6. In the single-instrument component, a snapshot with both sides followed by an update
  that removes every ask leaves the published asks empty while spread and mid price keep
  the values of the snapshot.
\<close>

theorem stale_spread_v1:
  "v1_asks (onmessage_v1 scripted_engine_v1 ''asks-gone''
      (onmessage_v1 scripted_engine_v1 ''snapshot'' init_v1)) = []
   \<and> v1_bids (onmessage_v1 scripted_engine_v1 ''asks-gone''
      (onmessage_v1 scripted_engine_v1 ''snapshot'' init_v1)) = [(100, 2), (199 / 2, 1)]
   \<and> v1_spread (onmessage_v1 scripted_engine_v1 ''asks-gone''
      (onmessage_v1 scripted_engine_v1 ''snapshot'' init_v1)) = Some (1 / 2)
   \<and> v1_midPrice (onmessage_v1 scripted_engine_v1 ''asks-gone''
      (onmessage_v1 scripted_engine_v1 ''snapshot'' init_v1)) = Some (401 / 4)
   \<and> v1_updateCount (onmessage_v1 scripted_engine_v1 ''asks-gone''
      (onmessage_v1 scripted_engine_v1 ''snapshot'' init_v1)) = 2"
  by (simp add: onmessage_v1_def scripted_engine_v1_def init_v1_def js_positive_def
      best_price_def snapshot_result_def Let_def)

section \<open>The subscription request\<close>

text \<open>
  C7. When the socket of the live session signals open, exactly one request is sent on it:
  the method \<open>subscribe\<close>, the channel \<open>book\<close>, the currently selected symbol and
  depth 25. Nothing is sent on any other socket, and a socket never carries more requests than
  open signals it has given. The single-instrument component sends the same request for
  \<open>BTC/USD\<close>.
\<close>

theorem subscription_on_open:
  assumes s: "s = run eng init_world evs"
    and w: "w < length (sockets s)" and live: "mounted (sockets s ! w)"
  shows "sent (sockets (step eng s (WsOpen w)) ! w)
      = sent (sockets s ! w) @
          [\<lparr>req_method = ''subscribe'',
            params = \<lparr>channel = ''book'', params_symbol = [symbol s], depth = 25\<rparr>\<rparr>]
    \<and> (\<forall>w' < length (sockets s). w' \<noteq> w \<longrightarrow>
          sockets (step eng s (WsOpen w)) ! w' = sockets s ! w')
    \<and> connected_flag (step eng s (WsOpen w))
    \<and> length (sent (sockets s ! w)) \<le> count_list evs (WsOpen w)
    \<and> (\<forall>v. v1_mounted v \<longrightarrow>
          v1_connected (onopen_v1 v)
          \<and> v1_sent (onopen_v1 v) = v1_sent v @
               [\<lparr>req_method = ''subscribe'',
                 params = \<lparr>channel = ''book'', params_symbol = [''BTC/USD''],
                           depth = 25\<rparr>\<rparr>])"
proof -
  have "session_inv s"
    unfolding s by (rule session_inv_run [OF session_inv_init])
  then have sym: "sock_symbol (sockets s ! w) = symbol s"
    using w live unfolding session_inv_def by blast
  have "sent_count s w \<le> sent_count init_world w + count_list evs (WsOpen w)"
    unfolding s by (rule sent_count_run)
  then have count: "length (sent (sockets s ! w)) \<le> count_list evs (WsOpen w)"
    using w by (simp add: sent_count_def)
  show ?thesis
    using w live sym count
    by (simp add: step_def ws_onopen_eq onopen_v1_def SYMBOL_def)
qed

theorem subscription_on_open_witness:
  "0 < length (sockets (run scripted_engine init_world [SdkReady]))
   \<and> mounted (sockets (run scripted_engine init_world [SdkReady]) ! 0)
   \<and> sent (sockets (step scripted_engine (run scripted_engine init_world [SdkReady])
        (WsOpen 0)) ! 0)
       = [\<lparr>req_method = ''subscribe'',
           params = \<lparr>channel = ''book'', params_symbol = [''BTC/USD''], depth = 25\<rparr>\<rparr>]
   \<and> v1_mounted init_v1
   \<and> v1_sent (onopen_v1 init_v1)
       = [\<lparr>req_method = ''subscribe'',
           params = \<lparr>channel = ''book'', params_symbol = [''BTC/USD''], depth = 25\<rparr>\<rparr>]"
proof -
  have facts: "sockets (step scripted_engine init_world SdkReady)
      = [\<lparr>sock_symbol = ''BTC/USD'', mounted = True, sent = [], close_calls = 0\<rparr>]"
    "symbol (step scripted_engine init_world SdkReady) = ''BTC/USD''"
    by (simp_all add: run_defs)
  have v1: "v1_mounted init_v1" "v1_sent init_v1 = []"
    by (simp_all add: init_v1_def)
  show ?thesis
    using subscription_on_open [OF refl, of 0 scripted_engine "[SdkReady]"] v1
    by (simp add: facts)
qed

section \<open>Precision of the engine handle\<close>

text \<open>
  C8. After any events the selected symbol is one of the listed instruments, a ready,
  mounted component has a handle, and the handle in place was built for the selected symbol
  with depth 25 and configured with that symbol's pair of the precision table: (1, 8) for
  BTC/USD, (2, 8) for ETH/USD and SOL/USD, (5, 8) for XRP/USD, (6, 8) for ADA/USD.
  Selecting another instrument installs a new handle, configured for the selected one.
  The connect effect run for a symbol without an entry in the table, and which does not
  name a member that the table inherits from \<open>Object.prototype\<close>, returns normally and
  configures the new handle with (2, 8).
\<close>

theorem connect_effect_precision:
  assumes r: "r = run eng init_world evs"
  shows "symbol r \<in> set SYMBOLS
    \<and> (alive r \<and> sdkReady r \<longrightarrow> bookRef r \<noteq> None)
    \<and> (\<forall>b. bookRef r = Some b \<longrightarrow>
          book_symbol b = symbol r \<and> book_depth b = 25
          \<and> precision b = Some
              (if symbol r = ''BTC/USD'' then (1, 8) else if symbol r = ''ETH/USD'' then (2, 8)
               else if symbol r = ''SOL/USD'' then (2, 8)
               else if symbol r = ''XRP/USD'' then (5, 8) else (6, 8)))
    \<and> (\<forall>x \<in> set SYMBOLS. alive s \<and> sdkReady s \<and> x \<noteq> symbol s \<longrightarrow>
          (\<exists>b. bookRef (step eng s (Select x)) = Some b
             \<and> book_symbol b = x \<and> book_depth b = 25 \<and> received b = []
             \<and> precision b = Some
                 (if x = ''BTC/USD'' then (1, 8) else if x = ''ETH/USD'' then (2, 8)
                  else if x = ''SOL/USD'' then (2, 8) else if x = ''XRP/USD'' then (5, 8)
                  else (6, 8))))
    \<and> (sdkReady s \<and> symbol s \<notin> set Object_prototype \<longrightarrow>
          fst (connect_effect eng s) = None
          \<and> (\<exists>b. bookRef (snd (connect_effect eng s)) = Some b
                \<and> book_symbol b = symbol s \<and> book_depth b = 25 \<and> received b = []
                \<and> precision b = Some
                    (if symbol s = ''BTC/USD'' then (1, 8)
                     else if symbol s = ''ETH/USD'' then (2, 8)
                     else if symbol s = ''SOL/USD'' then (2, 8)
                     else if symbol s = ''XRP/USD'' then (5, 8)
                     else if symbol s = ''ADA/USD'' then (6, 8) else (2, 8))))"
proof -
  have inv: "session_inv r" "handle_inv r"
    unfolding r using reachable_invariants [of eng evs] by simp_all
  have listed: "x = ''BTC/USD'' \<or> x = ''ETH/USD'' \<or> x = ''SOL/USD'' \<or> x = ''XRP/USD''
      \<or> x = ''ADA/USD''" if "x \<in> set SYMBOLS" for x
    using that by (simp add: SYMBOLS_def)
  have current: "symbol r \<in> set SYMBOLS"
    using inv(1) by (rule session_inv_listed)
  have present: "bookRef r \<noteq> None" if "alive r \<and> sdkReady r"
    using inv(1) that unfolding session_inv_def by blast
  have configured: "book_symbol b = symbol r \<and> book_depth b = 25
      \<and> precision b = Some
          (if symbol r = ''BTC/USD'' then (1, 8) else if symbol r = ''ETH/USD'' then (2, 8)
           else if symbol r = ''SOL/USD'' then (2, 8)
           else if symbol r = ''XRP/USD'' then (5, 8) else (6, 8))"
    if b: "bookRef r = Some b" for b
  proof -
    have "book_symbol b = symbol r \<and> book_depth b = 25
      \<and> precision b = Some (case SYMBOL_PRECISION (symbol r) of
                              Some pq \<Rightarrow> pq | None \<Rightarrow> (2, 8))"
      using inv(2) b unfolding handle_inv_def by blast
    then show ?thesis
      using listed [OF current] by (auto simp: SYMBOL_PRECISION_table)
  qed
  have direct: "connect_effect eng t = (None, snd (connect_effect eng t))
      \<and> bookRef (snd (connect_effect eng t)) = Some (fresh_book (symbol t))"
    if "sdkReady t" "symbol t \<notin> set Object_prototype" for t
    using that by (simp add: connect_effect_eq)
  have switched: "\<exists>b. bookRef (step eng s (Select x)) = Some b
             \<and> book_symbol b = x \<and> book_depth b = 25 \<and> received b = []
             \<and> precision b = Some
                 (if x = ''BTC/USD'' then (1, 8) else if x = ''ETH/USD'' then (2, 8)
                  else if x = ''SOL/USD'' then (2, 8) else if x = ''XRP/USD'' then (5, 8)
                  else (6, 8))"
    if x: "x \<in> set SYMBOLS" "alive s \<and> sdkReady s \<and> x \<noteq> symbol s" for x
  proof -
    have "bookRef (step eng s (Select x)) = Some (fresh_book x)"
      unfolding step_def handle_Select_eq
      using x direct [of "run_cleanup (s\<lparr>symbol := x\<rparr>)"]
      by (simp add: rerun_connect_effect_def run_cleanup_frame listed_not_inherited)
    then show ?thesis
      using listed [OF x(1)] by (auto simp: fresh_book_def SYMBOL_PRECISION_table)
  qed
  have default: "fst (connect_effect eng s) = None
          \<and> (\<exists>b. bookRef (snd (connect_effect eng s)) = Some b
                \<and> book_symbol b = symbol s \<and> book_depth b = 25 \<and> received b = []
                \<and> precision b = Some
                    (if symbol s = ''BTC/USD'' then (1, 8)
                     else if symbol s = ''ETH/USD'' then (2, 8)
                     else if symbol s = ''SOL/USD'' then (2, 8)
                     else if symbol s = ''XRP/USD'' then (5, 8)
                     else if symbol s = ''ADA/USD'' then (6, 8) else (2, 8)))"
    if "sdkReady s \<and> symbol s \<notin> set Object_prototype"
    using direct [of s] that connect_effect_normal [of s eng]
    by (simp add: fresh_book_def SYMBOL_PRECISION_table)
  show ?thesis
    using current present configured switched default by blast
qed

theorem connect_effect_precision_witness:
  "symbol (run scripted_engine init_world select_trace) = ''ADA/USD''
   \<and> map_option precision (bookRef (run scripted_engine init_world select_trace))
       = Some (Some (6, 8))
   \<and> sdkReady (ready_world ''XRP/USD'')
   \<and> map_option precision (bookRef (snd (connect_effect scripted_engine
        (ready_world ''XRP/USD'')))) = Some (Some (5, 8))
   \<and> sdkReady (ready_world ''DOGE/USD'')
   \<and> fst (connect_effect scripted_engine (ready_world ''DOGE/USD'')) = None
   \<and> map_option precision (bookRef (snd (connect_effect scripted_engine
        (ready_world ''DOGE/USD'')))) = Some (Some (2, 8))
   \<and> map_option precision (bookRef (step scripted_engine (ready_world ''XRP/USD'')
        (Select ''ETH/USD''))) = Some (Some (2, 8))"
proof -
  have facts: "symbol (run scripted_engine init_world select_trace) = ''ADA/USD''"
    "alive (run scripted_engine init_world select_trace)"
    "sdkReady (run scripted_engine init_world select_trace)"
    by (simp_all add: select_trace_def run_defs)
  have ready: "sdkReady (ready_world x)" "alive (ready_world x)" "symbol (ready_world x) = x"
    for x
    by (simp_all add: ready_world_def)
  have plain: "''XRP/USD'' \<notin> set Object_prototype" "''DOGE/USD'' \<notin> set Object_prototype"
    by (simp_all add: Object_prototype_def)
  have listed: "''ETH/USD'' \<in> set SYMBOLS"
    by (simp add: SYMBOLS_def)
  show ?thesis
    using connect_effect_precision
        [where r = "run scripted_engine init_world select_trace" and eng = scripted_engine
          and evs = select_trace and s = "ready_world ''XRP/USD''", OF refl]
      connect_effect_precision
        [where r = "run scripted_engine init_world select_trace" and eng = scripted_engine
          and evs = select_trace and s = "ready_world ''DOGE/USD''", OF refl]
      listed
    by (auto simp: facts ready plain)
qed

section \<open>The guards of the processor\<close>

text \<open>
  C9. \<open>processNextMessage\<close> changes nothing and throws nothing whenever a message is in
  flight, the queue is empty, or there is no engine handle. In particular, while there is no
  handle, the drain that \<open>queueMessage\<close> triggers leaves the queue as the append (with its
  overflow truncation) made it: below the capacity, the messages queued before stay in
  place and the new one follows them.
\<close>

theorem processNextMessage_noop:
  "(processingRef s \<or> messageQueueRef s = [] \<or> bookRef s = None
      \<longrightarrow> processNextMessage eng s = (None, s))
   \<and> (bookRef s = None \<longrightarrow> queueMessage eng msg s = (None, push_bounded msg s))
   \<and> (bookRef s = None \<and> length (messageQueueRef s) < 100
      \<longrightarrow> messageQueueRef (snd (queueMessage eng msg s)) = messageQueueRef s @ [msg])"
proof -
  have "queueMessage eng msg s = (None, push_bounded msg s)" if "bookRef s = None"
    unfolding queueMessage_def
    by (intro processNextMessage_idle) (simp add: that push_bounded_keeps)
  then show ?thesis
    by (auto simp: processNextMessage_idle push_bounded_queue)
qed

theorem processNextMessage_noop_witness:
  "bookRef (init_world\<lparr>messageQueueRef := [\<lparr>origin = 0, payload = ''snapshot''\<rparr>]\<rparr>) = None
   \<and> processNextMessage scripted_engine
        (init_world\<lparr>messageQueueRef := [\<lparr>origin = 0, payload = ''snapshot''\<rparr>]\<rparr>)
       = (None, init_world\<lparr>messageQueueRef := [\<lparr>origin = 0, payload = ''snapshot''\<rparr>]\<rparr>)
   \<and> messageQueueRef (snd (queueMessage scripted_engine \<lparr>origin = 0, payload = ''update''\<rparr>
        (init_world\<lparr>messageQueueRef := [\<lparr>origin = 0, payload = ''snapshot''\<rparr>]\<rparr>)))
       = [\<lparr>origin = 0, payload = ''snapshot''\<rparr>, \<lparr>origin = 0, payload = ''update''\<rparr>]"
  using processNextMessage_noop
    [of "init_world\<lparr>messageQueueRef := [\<lparr>origin = 0, payload = ''snapshot''\<rparr>]\<rparr>"
      scripted_engine "\<lparr>origin = 0, payload = ''update''\<rparr>"]
  by (simp add: push_bounded_queue)

section \<open>Teardown\<close>

text \<open>
  C10, as the claim states it, fails on unmount: after a session that published a snapshot
  is unmounted, the handle and socket references are still set, and so are the published
  book and the update counter.
\<close>

theorem unmount_keeps_session_state_counterexample:
  "bookRef (run faulty_engine init_world unmount_trace) \<noteq> None
   \<and> wsRef (run faulty_engine init_world unmount_trace) \<noteq> None
   \<and> bids (run faulty_engine init_world unmount_trace) \<noteq> []
   \<and> updateCount (run faulty_engine init_world unmount_trace) \<noteq> 0"
  by (simp add: unmount_trace_def run_defs faulty_engine_def scripted_engine_def
      snapshot_result_def)

text \<open>
  C10, amended. Whatever \<open>free\<close> does, retiring the previous session on a switch and the
  cleanup on unmount return normally, and so do the handlers of both events. Either one
  calls \<open>free\<close> on the handle in place and then \<open>close\<close> on the current socket. Retiring
  the previous session on a switch also clears the session state: both references, the
  queue, the processing flag and the published fields. The cleanup on unmount does not: it
  leaves the socket reference, the queue, the processing flag and the published fields as
  they are, and the handle reference keeps naming the released handle.
\<close>

theorem teardown_swallows_release_failure:
  "fst (retire_previous_session eng s) = None
   \<and> fst (unmount_cleanup eng s) = None
   \<and> fst (handle eng s (Select x)) = None
   \<and> fst (handle eng s Unmount) = None
   \<and> bookRef (snd (retire_previous_session eng s)) = None
   \<and> wsRef (snd (retire_previous_session eng s)) = None
   \<and> messageQueueRef (snd (retire_previous_session eng s)) = []
   \<and> processingRef (snd (retire_previous_session eng s)) = False
   \<and> bids (snd (retire_previous_session eng s)) = []
   \<and> asks (snd (retire_previous_session eng s)) = []
   \<and> spread (snd (retire_previous_session eng s)) = None
   \<and> midPrice (snd (retire_previous_session eng s)) = None
   \<and> updateCount (snd (retire_previous_session eng s)) = 0
   \<and> checksumValid (snd (retire_previous_session eng s)) = True
   \<and> (\<forall>b. bookRef s = Some b \<longrightarrow>
         released (snd (retire_previous_session eng s))
           = released s @ [b\<lparr>free_calls := free_calls b + 1\<rparr>]
         \<and> released (snd (unmount_cleanup eng s))
           = released s @ [b\<lparr>free_calls := free_calls b + 1\<rparr>])
   \<and> (\<forall>w. wsRef s = Some w \<and> w < length (sockets s) \<longrightarrow>
         close_calls (sockets (snd (retire_previous_session eng s)) ! w)
           = close_calls (sockets s ! w) + 1
         \<and> close_calls (sockets (snd (unmount_cleanup eng s)) ! w)
           = close_calls (sockets s ! w) + 1)
   \<and> bookRef (snd (unmount_cleanup eng s))
       = map_option (\<lambda>b. b\<lparr>free_calls := free_calls b + 1\<rparr>) (bookRef s)
   \<and> wsRef (snd (unmount_cleanup eng s)) = wsRef s
   \<and> messageQueueRef (snd (unmount_cleanup eng s)) = messageQueueRef s
   \<and> processingRef (snd (unmount_cleanup eng s)) = processingRef s
   \<and> bids (snd (unmount_cleanup eng s)) = bids s
   \<and> asks (snd (unmount_cleanup eng s)) = asks s
   \<and> spread (snd (unmount_cleanup eng s)) = spread s
   \<and> midPrice (snd (unmount_cleanup eng s)) = midPrice s
   \<and> updateCount (snd (unmount_cleanup eng s)) = updateCount s
   \<and> checksumValid (snd (unmount_cleanup eng s)) = checksumValid s"
  by (simp add: handle_teardown_normal retire_eq unmount_cleanup_eq closed_sockets_def
      del: handle.simps)

theorem teardown_swallows_release_failure_witness:
  "free faulty_engine (fresh_book ''BTC/USD'') = Some ThrownNullish
   \<and> bookRef (step faulty_engine init_world SdkReady) = Some (fresh_book ''BTC/USD'')
   \<and> wsRef (step faulty_engine init_world SdkReady) = Some 0
   \<and> 0 < length (sockets (step faulty_engine init_world SdkReady))
   \<and> fst (retire_previous_session faulty_engine (step faulty_engine init_world SdkReady)) = None
   \<and> released (snd (retire_previous_session faulty_engine
        (step faulty_engine init_world SdkReady)))
       = [(fresh_book ''BTC/USD'')\<lparr>free_calls := 1\<rparr>]
   \<and> close_calls (sockets (snd (retire_previous_session faulty_engine
        (step faulty_engine init_world SdkReady))) ! 0) = 1
   \<and> fst (unmount_cleanup faulty_engine (step faulty_engine init_world SdkReady)) = None
   \<and> close_calls (sockets (snd (unmount_cleanup faulty_engine
        (step faulty_engine init_world SdkReady))) ! 0) = 1"
proof -
  have facts: "bookRef (step faulty_engine init_world SdkReady) = Some (fresh_book ''BTC/USD'')"
    "wsRef (step faulty_engine init_world SdkReady) = Some 0"
    "sockets (step faulty_engine init_world SdkReady)
      = [\<lparr>sock_symbol = ''BTC/USD'', mounted = True, sent = [], close_calls = 0\<rparr>]"
    "released (step faulty_engine init_world SdkReady) = []"
    by (simp_all add: run_defs)
  have throws: "free faulty_engine b = Some ThrownNullish" for b
    by (simp add: faulty_engine_def)
  show ?thesis
    using teardown_swallows_release_failure
      [of faulty_engine "step faulty_engine init_world SdkReady" "''ETH/USD''"]
    by (simp add: facts throws del: handle.simps)
qed

end
